theory Spec2Isabelle
  imports Main "HOL-Library.Word"
begin

section \<open>Data model of the job chain (job-runner/chain/chain.go)\<close>

text \<open>
  Go's \<open>byte\<close> is an 8-bit word. Go's \<open>uint\<close> and \<open>int\<close> have the same width;
  the job runner is built for 64-bit platforms, so both are 64-bit words here. A value of
  type \<open>go_int\<close> is read as two's complement with \<open>sint\<close>, a \<open>uint\<close> with \<open>unat\<close>;
  the conversions \<open>int(x)\<close> and \<open>uint(x)\<close> keep the bits, and \<open>+\<close> wraps.
\<close>

type_synonym byte = "8 word"
type_synonym uint = "64 word"
type_synonym go_int = "64 word"

text \<open>The values stored in a job's \<open>Data\<close> are of type \<open>interface{}\<close>: opaque here.\<close>

typedecl iface

text \<open>
  Modelled from the spec: the type \<open>proto.Job\<close> is declared in package \<open>proto\<close>. The
  fields are the ones the spec's data model lists; \<open>Data\<close> is a Go map that may be
  \<open>nil\<close> (\<open>None\<close>).
\<close>

record Job =
  job_Id :: string
  job_State :: byte
  job_Data :: "(string \<rightharpoonup> iface) option"
  job_Retry :: uint
  job_SequenceId :: string
  job_SequenceRetry :: uint

text \<open>
  Modelled from the spec: the type \<open>proto.JobChain\<close> is declared in package \<open>proto\<close>.
\<close>

record JobChain =
  jc_RequestId :: string
  jc_Jobs :: "string \<rightharpoonup> Job"
  jc_AdjacencyList :: "string \<rightharpoonup> string list"
  jc_State :: byte
  jc_FinishedJobs :: uint

text \<open>
  Modelled from the spec: the job states are constants of package \<open>proto\<close>. The spec
  names six of them; they are distinct bytes, and the zero byte (the state of Go's zero
  \<open>Job\<close>) is \<open>STATE_UNKNOWN\<close>. The values follow the order of their declaration;
  the theorems use that the six are distinct and that 7 is none of them.
\<close>

definition STATE_UNKNOWN :: byte where "STATE_UNKNOWN = 0"
definition STATE_PENDING :: byte where "STATE_PENDING = 1"
definition STATE_RUNNING :: byte where "STATE_RUNNING = 2"
definition STATE_COMPLETE :: byte where "STATE_COMPLETE = 3"
definition STATE_FAIL :: byte where "STATE_FAIL = 4"
definition STATE_STOPPED :: byte where "STATE_STOPPED = 6"

definition valid_job_states :: "byte set" where
  "valid_job_states =
     {STATE_PENDING, STATE_RUNNING, STATE_COMPLETE, STATE_FAIL, STATE_STOPPED, STATE_UNKNOWN}"

text \<open>
  The chain of chain.go, without its two mutexes, as the value its references lead to:
  the job chain and the contents of the three maps of tries. A Go map that is \<open>nil\<close>
  reads as an empty one. A method that writes the job chain returns the new value.
\<close>

record Chain =
  jobChain :: JobChain
  sequenceTries :: "string \<rightharpoonup> uint"
  latestRunJobTries :: "string \<rightharpoonup> uint"
  totalJobTries :: "string \<rightharpoonup> uint"

text \<open>A panic of the source is a value.\<close>

datatype panic =
  InvalidJobState byte
  | NegativeJobTries string
  | NegativeFinishedJobs
  | NilMapWrite

text \<open>Reading a Go map at a missing key gives the zero value of the element type.\<close>

definition zero_Job :: Job where
  "zero_Job = \<lparr>job_Id = [], job_State = 0, job_Data = None, job_Retry = 0,
               job_SequenceId = [], job_SequenceRetry = 0\<rparr>"

definition job_at :: "(string \<rightharpoonup> Job) \<Rightarrow> string \<Rightarrow> Job" where
  "job_at m k = (case m k of None \<Rightarrow> zero_Job | Some j \<Rightarrow> j)"

definition tries_at :: "(string \<rightharpoonup> uint) \<Rightarrow> string \<Rightarrow> uint" where
  "tries_at m k = (case m k of None \<Rightarrow> 0 | Some n \<Rightarrow> n)"

text \<open>
  A \<open>range\<close> loop over a Go map visits every key once, in an order the language leaves
  open. A loop over a map takes the order of the visit as a list of keys; the theorems
  hold for every list that enumerates the keys of the map.
\<close>

definition key_order :: "(string \<rightharpoonup> 'v) \<Rightarrow> string list \<Rightarrow> bool" where
  "key_order m ks = (distinct ks \<and> set ks = dom m)"

section \<open>Graph queries and the runnability predicate\<close>

fun contains :: "string list \<Rightarrow> string \<Rightarrow> bool" where
  "contains [] t = False"
| "contains (i # s) t = (if i = t then True else contains s t)"

text \<open>
  \<open>previousJobs\<close>: the loop over the adjacency list, visited in the order \<open>aks\<close>,
  appending to \<open>prevJobs\<close>.
\<close>

fun previousJobs_loop :: "JobChain \<Rightarrow> string list \<Rightarrow> string \<Rightarrow> Job list \<Rightarrow> Job list" where
  "previousJobs_loop jc [] jobId prevJobs = prevJobs"
| "previousJobs_loop jc (curJob # aks) jobId prevJobs =
     (case jc_AdjacencyList jc curJob of
        None \<Rightarrow> previousJobs_loop jc aks jobId prevJobs
      | Some nextJobs \<Rightarrow>
          if contains nextJobs jobId then
            (case jc_Jobs jc curJob of
               Some val \<Rightarrow> previousJobs_loop jc aks jobId (prevJobs @ [val])
             | None \<Rightarrow> previousJobs_loop jc aks jobId prevJobs)
          else previousJobs_loop jc aks jobId prevJobs)"

definition previousJobs :: "Chain \<Rightarrow> string list \<Rightarrow> string \<Rightarrow> Job list" where
  "previousJobs c aks jobId = previousJobs_loop (jobChain c) aks jobId []"

fun all_complete :: "Job list \<Rightarrow> bool" where
  "all_complete [] = True"
| "all_complete (job # jobs) =
     (if job_State job \<noteq> STATE_COMPLETE then False else all_complete jobs)"

definition isRunnable :: "Chain \<Rightarrow> string list \<Rightarrow> string \<Rightarrow> bool" where
  "isRunnable c aks jobId =
     (let job = job_at (jc_Jobs (jobChain c)) jobId in
      if job_State job \<noteq> STATE_PENDING then False
      else all_complete (previousJobs c aks jobId))"

definition IsRunnable :: "Chain \<Rightarrow> string list \<Rightarrow> string \<Rightarrow> bool" where
  "IsRunnable c aks jobId = isRunnable c aks jobId"

fun NextJobs_loop :: "JobChain \<Rightarrow> string list \<Rightarrow> Job list \<Rightarrow> Job list" where
  "NextJobs_loop jc [] nextJobs = nextJobs"
| "NextJobs_loop jc (i # ids) nextJobs =
     (case jc_Jobs jc i of
        Some val \<Rightarrow> NextJobs_loop jc ids (nextJobs @ [val])
      | None \<Rightarrow> NextJobs_loop jc ids nextJobs)"

definition NextJobs :: "Chain \<Rightarrow> string \<Rightarrow> Job list" where
  "NextJobs c jobId =
     (case jc_AdjacencyList (jobChain c) jobId of
        Some nextJobIds \<Rightarrow> NextJobs_loop (jobChain c) nextJobIds []
      | None \<Rightarrow> [])"

fun RunnableJobs_loop :: "Chain \<Rightarrow> string list \<Rightarrow> string list \<Rightarrow> Job list \<Rightarrow> Job list" where
  "RunnableJobs_loop c aks [] runnableJobs = runnableJobs"
| "RunnableJobs_loop c aks (jobId # ks) runnableJobs =
     (case jc_Jobs (jobChain c) jobId of
        None \<Rightarrow> RunnableJobs_loop c aks ks runnableJobs
      | Some job \<Rightarrow>
          if \<not> IsRunnable c aks jobId then RunnableJobs_loop c aks ks runnableJobs
          else RunnableJobs_loop c aks ks (runnableJobs @ [job]))"

definition RunnableJobs :: "Chain \<Rightarrow> string list \<Rightarrow> string list \<Rightarrow> Job list" where
  "RunnableJobs c ks aks = RunnableJobs_loop c aks ks []"

section \<open>Sequences and retries\<close>

definition sequenceStartJob :: "Chain \<Rightarrow> string \<Rightarrow> Job" where
  "sequenceStartJob c jobId =
     job_at (jc_Jobs (jobChain c)) (job_SequenceId (job_at (jc_Jobs (jobChain c)) jobId))"

definition SequenceStartJob :: "Chain \<Rightarrow> string \<Rightarrow> Job" where
  "SequenceStartJob c jobId =
     job_at (jc_Jobs (jobChain c)) (job_SequenceId (job_at (jc_Jobs (jobChain c)) jobId))"

definition IsSequenceStartJob :: "Chain \<Rightarrow> string \<Rightarrow> bool" where
  "IsSequenceStartJob c jobId = (jobId = job_SequenceId (job_at (jc_Jobs (jobChain c)) jobId))"

definition canRetrySequence :: "Chain \<Rightarrow> string \<Rightarrow> bool" where
  "canRetrySequence c jobId =
     (let s = sequenceStartJob c jobId in
      tries_at (sequenceTries c) (job_Id s) \<le> job_SequenceRetry s)"

definition CanRetrySequence :: "Chain \<Rightarrow> string \<Rightarrow> bool" where
  "CanRetrySequence c jobId =
     (let s = SequenceStartJob c jobId in
      tries_at (sequenceTries c) (job_Id s) \<le> job_SequenceRetry s)"

section \<open>The completion oracle\<close>

text \<open>
  \<open>IsDoneRunning\<close>: the loop over the jobs, visited in the order \<open>ks\<close>, with the
  variable \<open>complete\<close>; the branches are the cases of the \<open>switch\<close>, in its order.
  A return from inside the loop ends it; the \<open>default\<close> case panics.
\<close>

fun IsDoneRunning_loop ::
  "Chain \<Rightarrow> string list \<Rightarrow> string list \<Rightarrow> bool \<Rightarrow> panic + (bool \<times> bool)" where
  "IsDoneRunning_loop c aks [] complete = Inr (True, complete)"
| "IsDoneRunning_loop c aks (k # ks) complete =
     (case jc_Jobs (jobChain c) k of
        None \<Rightarrow> IsDoneRunning_loop c aks ks complete
      | Some job \<Rightarrow>
          if job_State job = STATE_COMPLETE then IsDoneRunning_loop c aks ks complete
          else if job_State job = STATE_RUNNING then Inr (False, False)
          else if job_State job = STATE_STOPPED then IsDoneRunning_loop c aks ks False
          else if job_State job = STATE_PENDING then
            (if isRunnable c aks (job_Id job) then Inr (False, False)
             else IsDoneRunning_loop c aks ks False)
          else if job_State job = STATE_FAIL \<or> job_State job = STATE_UNKNOWN then
            (if canRetrySequence c (job_Id job) then Inr (False, False)
             else IsDoneRunning_loop c aks ks False)
          else Inl (InvalidJobState (job_State job)))"

definition IsDoneRunning :: "Chain \<Rightarrow> string list \<Rightarrow> string list \<Rightarrow> panic + (bool \<times> bool)" where
  "IsDoneRunning c ks aks = IsDoneRunning_loop c aks ks True"

text \<open>
  The jobs at which the scan of \<open>IsDoneRunning\<close> returns early: a running job, a
  pending job that is runnable, a failed or unknown job whose sequence can be retried.
\<close>

definition blocks :: "Chain \<Rightarrow> string list \<Rightarrow> Job \<Rightarrow> bool" where
  "blocks c aks job \<longleftrightarrow>
     job_State job = STATE_RUNNING \<or>
     (job_State job = STATE_PENDING \<and> isRunnable c aks (job_Id job)) \<or>
     ((job_State job = STATE_FAIL \<or> job_State job = STATE_UNKNOWN) \<and> canRetrySequence c (job_Id job))"

section \<open>The chains of the scenarios\<close>

text \<open>
  The chain of the tests \<open>TestIsDoneSuspendedJobChain\<close> and
  \<open>TestIsRunnableSuspendedJobChain\<close>: four jobs, edges 1 to 2 and 3, and 2 to 4.
\<close>

definition init_job :: "string \<Rightarrow> byte \<Rightarrow> Job" where
  "init_job jobId st = \<lparr>job_Id = jobId, job_State = st, job_Data = Some Map.empty, job_Retry = 0,
               job_SequenceId = ''job1'', job_SequenceRetry = 0\<rparr>"

definition scenario_chain :: "byte \<Rightarrow> byte \<Rightarrow> byte \<Rightarrow> byte \<Rightarrow> Chain" where
  "scenario_chain s1 s2 s3 s4 =
     \<lparr>jobChain = \<lparr>jc_RequestId = ''req'',
         jc_Jobs = [''job1'' \<mapsto> init_job ''job1'' s1, ''job2'' \<mapsto> init_job ''job2'' s2,
                    ''job3'' \<mapsto> init_job ''job3'' s3, ''job4'' \<mapsto> init_job ''job4'' s4],
         jc_AdjacencyList = [''job1'' \<mapsto> [''job2'', ''job3''], ''job2'' \<mapsto> [''job4'']],
         jc_State = STATE_RUNNING, jc_FinishedJobs = 3\<rparr>,
       sequenceTries = Map.empty, latestRunJobTries = Map.empty, totalJobTries = Map.empty\<rparr>"

definition chain_S2 :: Chain where
  "chain_S2 = scenario_chain STATE_COMPLETE STATE_COMPLETE STATE_STOPPED STATE_PENDING"

definition chain_S3 :: Chain where
  "chain_S3 = scenario_chain STATE_COMPLETE STATE_STOPPED STATE_COMPLETE STATE_PENDING"

definition chain_done :: Chain where
  "chain_done = scenario_chain STATE_COMPLETE STATE_COMPLETE STATE_COMPLETE STATE_COMPLETE"


section \<open>Try counters, finished jobs and states\<close>

text \<open>
  The methods that read the counters and the job chain, and the ones that write the job
  chain. \<open>IncrementJobTries\<close> and \<open>IncrementSequenceTries\<close>, which write into the
  maps of tries, come with the store, further down.
\<close>

definition JobTries :: "Chain \<Rightarrow> string \<Rightarrow> uint \<times> uint" where
  "JobTries c jobId = (tries_at (latestRunJobTries c) jobId, tries_at (totalJobTries c) jobId)"

definition SequenceTries :: "Chain \<Rightarrow> string \<Rightarrow> uint" where
  "SequenceTries c jobId =
     (let seqId = job_SequenceId (job_at (jc_Jobs (jobChain c)) jobId)
      in tries_at (sequenceTries c) seqId)"

definition IncrementFinishedJobs :: "Chain \<Rightarrow> go_int \<Rightarrow> panic + Chain" where
  "IncrementFinishedJobs c delta =
     (let cur = jc_FinishedJobs (jobChain c)
      in if sint (cur + delta) < 0 then Inl NegativeFinishedJobs
         else Inr (c\<lparr>jobChain := (jobChain c)\<lparr>jc_FinishedJobs := cur + delta\<rparr>\<rparr>))"

definition FinishedJobs :: "Chain \<Rightarrow> uint" where
  "FinishedJobs c = jc_FinishedJobs (jobChain c)"

fun FailedJobs_loop :: "Chain \<Rightarrow> string list \<Rightarrow> uint \<Rightarrow> uint" where
  "FailedJobs_loop c [] n = n"
| "FailedJobs_loop c (k # ks) n =
     (case jc_Jobs (jobChain c) k of
        None \<Rightarrow> FailedJobs_loop c ks n
      | Some job \<Rightarrow>
          if job_State job = STATE_FAIL \<or> job_State job = STATE_UNKNOWN
          then FailedJobs_loop c ks (n + 1)
          else FailedJobs_loop c ks n)"

definition FailedJobs :: "Chain \<Rightarrow> string list \<Rightarrow> uint" where
  "FailedJobs c ks = FailedJobs_loop c ks 0"

definition RequestId :: "Chain \<Rightarrow> string" where
  "RequestId c = jc_RequestId (jobChain c)"

definition JobState :: "Chain \<Rightarrow> string \<Rightarrow> byte" where
  "JobState c jobId = job_State (job_at (jc_Jobs (jobChain c)) jobId)"

definition SetState :: "Chain \<Rightarrow> byte \<Rightarrow> Chain" where
  "SetState c state = c\<lparr>jobChain := (jobChain c)\<lparr>jc_State := state\<rparr>\<rparr>"

definition State :: "Chain \<Rightarrow> byte" where
  "State c = jc_State (jobChain c)"

text \<open>
  \<open>SetJobState\<close> reads the job (the zero job when the id is missing), sets its state
  and stores it back under the id.
\<close>

definition SetJobState :: "Chain \<Rightarrow> string \<Rightarrow> byte \<Rightarrow> Chain" where
  "SetJobState c jobId state =
     (let j = job_at (jc_Jobs (jobChain c)) jobId;
          j' = j\<lparr>job_State := state\<rparr>
      in c\<lparr>jobChain := (jobChain c)\<lparr>jc_Jobs := (jc_Jobs (jobChain c))(jobId \<mapsto> j')\<rparr>\<rparr>)"

section \<open>Chains for the retry claims\<close>

text \<open>
  The jobs of the tests \<open>TestCanRetrySequenceTrue\<close> and \<open>TestCanRetrySequenceFalse\<close>:
  the sequence starts at job1, which may be retried twice.
\<close>

definition retry_job :: "string \<Rightarrow> byte \<Rightarrow> Job" where
  "retry_job jobId st = \<lparr>job_Id = jobId, job_State = st, job_Data = Some Map.empty, job_Retry = 0,
               job_SequenceId = ''job1'', job_SequenceRetry = (if jobId = ''job1'' then 2 else 0)\<rparr>"

definition retry_chain :: "uint \<Rightarrow> uint \<Rightarrow> uint \<Rightarrow> Chain" where
  "retry_chain seqTries latestTries totalTries =
     \<lparr>jobChain = \<lparr>jc_RequestId = ''req'',
         jc_Jobs = [''job1'' \<mapsto> retry_job ''job1'' STATE_COMPLETE,
                    ''job2'' \<mapsto> retry_job ''job2'' STATE_FAIL],
         jc_AdjacencyList = [''job1'' \<mapsto> [''job2'']],
         jc_State = STATE_RUNNING, jc_FinishedJobs = 1\<rparr>,
       sequenceTries = [''job1'' \<mapsto> seqTries],
       latestRunJobTries = [''job2'' \<mapsto> latestTries],
       totalJobTries = [''job2'' \<mapsto> totalTries]\<rparr>"

section \<open>The find command (spinc/cmd/find.go)\<close>

text \<open>The errors \<open>Prepare\<close> returns, one constructor for each \<open>fmt.Errorf\<close>.\<close>

datatype find_error =
  InvalidCommandArg string nat
  | InvalidFilter string
  | FilterSpecifiedMultipleTimes string
  | InvalidState string
  | InvalidTimeUTC string
  | InvalidTimeForm string
  | InvalidLimit string
  | InvalidOffset string

text \<open>
  \<open>strings.SplitN(arg, "=", 2)\<close>: the text before the first \<open>=\<close> and the text after
  it, or the argument alone when it has no \<open>=\<close>.
\<close>

definition SplitN_eq_2 :: "string \<Rightarrow> string list" where
  "SplitN_eq_2 s =
     (if CHR ''='' \<in> set s
      then [takeWhile (\<lambda>c. c \<noteq> CHR ''='') s, tl (dropWhile (\<lambda>c. c \<noteq> CHR ''='') s)]
      else [s])"

text \<open>\<open>strings.Split(s, sep)\<close> for a separator of one character.\<close>

fun Split :: "string \<Rightarrow> char \<Rightarrow> string list" where
  "Split [] sep = [[]]"
| "Split (c # s) sep =
     (if c = sep then [] # Split s sep
      else (case Split s sep of [] \<Rightarrow> [[c]] | w # ws \<Rightarrow> (c # w) # ws))"

text \<open>\<open>strings.Index(s, substr)\<close>: the index of the first instance, or -1.\<close>

fun Index_from :: "string \<Rightarrow> string \<Rightarrow> int \<Rightarrow> int" where
  "Index_from [] substr i = (if substr = [] then i else - 1)"
| "Index_from (c # s) substr i =
     (if take (length substr) (c # s) = substr then i else Index_from s substr (i + 1))"

definition Index :: "string \<Rightarrow> string \<Rightarrow> int" where
  "Index s substr = Index_from s substr 0"

definition findLimitDefault :: uint where "findLimitDefault = 10"

definition findTimeFmt :: string where "findTimeFmt = ''YYYY-MM-DD HH:MM:SS UTC''"

definition findTimeFmtStr :: string where "findTimeFmtStr = ''2006-01-02 15:04:05 MST''"

definition findUtcIndex :: int where "findUtcIndex = Index findTimeFmt ''UTC''"

definition validFilters :: "string \<rightharpoonup> bool" where
  "validFilters = [''type'' \<mapsto> True, ''states'' \<mapsto> True, ''user'' \<mapsto> True, ''since'' \<mapsto> True,
                   ''until'' \<mapsto> True, ''limit'' \<mapsto> True, ''offset'' \<mapsto> True]"

text \<open>Reading a map of booleans or of strings at a missing key: \<open>false\<close>, the empty string.\<close>

definition bool_at :: "(string \<rightharpoonup> bool) \<Rightarrow> string \<Rightarrow> bool" where
  "bool_at m k = (case m k of None \<Rightarrow> False | Some b \<Rightarrow> b)"

definition string_at :: "(string \<rightharpoonup> string) \<Rightarrow> string \<Rightarrow> string" where
  "string_at m k = (case m k of None \<Rightarrow> [] | Some v \<Rightarrow> v)"

text \<open>
  What \<open>Prepare\<close> takes from other packages: the table \<open>proto.StateValue\<close>,
  \<open>time.Parse\<close> (with \<open>None\<close> for an error),
  \<open>strconv.ParseUint(s, 10, strconv.IntSize)\<close> and the zero \<open>time.Time\<close>.
\<close>

record 't find_env =
  StateValue :: "string \<rightharpoonup> byte"
  time_Parse :: "string \<Rightarrow> string \<Rightarrow> 't option"
  ParseUint :: "string \<Rightarrow> uint option"
  zero_Time :: 't

text \<open>
  Modelled from the spec: the type \<open>proto.RequestFilter\<close> is declared in package
  \<open>proto\<close>; the fields are the ones \<open>Prepare\<close> sets.
\<close>

record 't RequestFilter =
  rf_Type :: string
  rf_States :: "byte list"
  rf_User :: string
  rf_Since :: 't
  rf_Until :: 't
  rf_Limit :: uint
  rf_Offset :: uint

text \<open>
  The first loop of \<open>Prepare\<close>, over the arguments of the command, with the map
  \<open>filters\<close> it builds. The debug output is left out.
\<close>

fun Prepare_args :: "string list \<Rightarrow> (string \<rightharpoonup> string) \<Rightarrow> find_error + (string \<rightharpoonup> string)" where
  "Prepare_args [] filters = Inr filters"
| "Prepare_args (arg # args) filters =
     (let split = SplitN_eq_2 arg in
      if length split \<noteq> 2 then Inl (InvalidCommandArg arg (length split))
      else
        let filter = split ! 0; val = split ! 1 in
        if \<not> bool_at validFilters filter then Inl (InvalidFilter filter)
        else if filters filter \<noteq> None then Inl (FilterSpecifiedMultipleTimes filter)
        else Prepare_args args (filters(filter \<mapsto> val)))"

fun Prepare_states :: "(string \<rightharpoonup> byte) \<Rightarrow> string list \<Rightarrow> byte list \<Rightarrow> find_error + byte list" where
  "Prepare_states sv [] states = Inr states"
| "Prepare_states sv (state # rest) states =
     (case sv state of
        None \<Rightarrow> Inl (InvalidState state)
      | Some val \<Rightarrow> Prepare_states sv rest (states @ [val]))"

definition Prepare_time :: "'t find_env \<Rightarrow> string \<Rightarrow> find_error + 't" where
  "Prepare_time env s =
     (if s \<noteq> [] then
        (if Index s ''UTC'' \<noteq> findUtcIndex then Inl (InvalidTimeUTC s)
         else (case time_Parse env findTimeFmtStr s of
                 None \<Rightarrow> Inl (InvalidTimeForm s)
               | Some t \<Rightarrow> Inr t))
      else Inr (zero_Time env))"

definition Prepare :: "'t find_env \<Rightarrow> string list \<Rightarrow> find_error + 't RequestFilter" where
  "Prepare env args =
     (case Prepare_args args Map.empty of
        Inl e \<Rightarrow> Inl e
      | Inr filters \<Rightarrow>
     (case (if length (string_at filters ''states'') > 0
            then Prepare_states (StateValue env) (Split (string_at filters ''states'') CHR '','') []
            else Inr []) of
        Inl e \<Rightarrow> Inl e
      | Inr states \<Rightarrow>
     (case Prepare_time env (string_at filters ''since'') of
        Inl e \<Rightarrow> Inl e
      | Inr since \<Rightarrow>
     (case Prepare_time env (string_at filters ''until'') of
        Inl e \<Rightarrow> Inl e
      | Inr until \<Rightarrow>
     (case (if string_at filters ''limit'' = [] then Inr findLimitDefault
            else (case ParseUint env (string_at filters ''limit'') of
                    None \<Rightarrow> Inl (InvalidLimit (string_at filters ''limit''))
                  | Some l \<Rightarrow> Inr l)) of
        Inl e \<Rightarrow> Inl e
      | Inr limit \<Rightarrow>
     (case (if string_at filters ''offset'' \<noteq> []
            then (case ParseUint env (string_at filters ''offset'') of
                    None \<Rightarrow> Inl (InvalidOffset (string_at filters ''offset''))
                  | Some off \<Rightarrow> Inr off)
            else Inr 0) of
        Inl e \<Rightarrow> Inl e
      | Inr offset \<Rightarrow>
          Inr \<lparr>rf_Type = string_at filters ''type'', rf_States = states,
               rf_User = string_at filters ''user'', rf_Since = since, rf_Until = until,
               rf_Limit = limit, rf_Offset = offset\<rparr>))))))"

text \<open>
  The three errors of the first loop: a malformed argument, an unknown filter, a filter
  given twice.
\<close>

fun is_args_error :: "find_error \<Rightarrow> bool" where
  "is_args_error (InvalidCommandArg a n) = True"
| "is_args_error (InvalidFilter f) = True"
| "is_args_error (FilterSpecifiedMultipleTimes f) = True"
| "is_args_error e = False"

text \<open>The name of the filter an argument gives: the first part of its split.\<close>

definition filter_name :: "string \<Rightarrow> string" where
  "filter_name arg = SplitN_eq_2 arg ! 0"

definition filter_names :: "string set" where
  "filter_names = {''type'', ''states'', ''user'', ''since'', ''until'', ''limit'', ''offset''}"

text \<open>An environment for the examples: no state names, no time or number parses.\<close>

definition no_env :: "unit find_env" where
  "no_env = \<lparr>StateValue = Map.empty, time_Parse = (\<lambda>layout s. None),
             ParseUint = (\<lambda>s. None), zero_Time = ()\<rparr>"

section \<open>The chain and the objects it refers to\<close>

text \<open>
  A \<open>Chain\<close> holds a pointer to a \<open>JobChain\<close> and three Go maps, which are
  references: a map is \<open>nil\<close> (\<open>None\<close>) or an object at an address, and two of the
  three may be one object. \<open>NewChain\<close> keeps the references it is given, unchecked.
  The store maps an address to the object there; the methods of the sections above work
  on \<open>chain_of\<close>, the value a chain's references lead to in a store.
\<close>

record store =
  st_jobChains :: "nat \<Rightarrow> JobChain"
  st_tries :: "nat \<Rightarrow> (string \<rightharpoonup> uint)"

record ChainRef =
  ref_jobChain :: nat
  ref_sequenceTries :: "nat option"
  ref_latestRunJobTries :: "nat option"
  ref_totalJobTries :: "nat option"

text \<open>Reading a map: a \<open>nil\<close> map has no entries.\<close>

definition tries_of :: "store \<Rightarrow> nat option \<Rightarrow> (string \<rightharpoonup> uint)" where
  "tries_of h m = (case m of None \<Rightarrow> Map.empty | Some a \<Rightarrow> st_tries h a)"

text \<open>Writing \<open>m[k] = v\<close>: an assignment to an entry of a \<open>nil\<close> map panics.\<close>

definition put_tries :: "store \<Rightarrow> nat option \<Rightarrow> string \<Rightarrow> uint \<Rightarrow> panic + store" where
  "put_tries h m k v =
     (case m of
        None \<Rightarrow> Inl NilMapWrite
      | Some a \<Rightarrow> Inr (h\<lparr>st_tries := (st_tries h)(a := (st_tries h a)(k \<mapsto> v))\<rparr>))"

definition chain_of :: "store \<Rightarrow> ChainRef \<Rightarrow> Chain" where
  "chain_of h c =
     \<lparr>jobChain = st_jobChains h (ref_jobChain c),
      sequenceTries = tries_of h (ref_sequenceTries c),
      latestRunJobTries = tries_of h (ref_latestRunJobTries c),
      totalJobTries = tries_of h (ref_totalJobTries c)\<rparr>"

section \<open>The methods that write the maps of tries\<close>

text \<open>
  \<open>IncrementJobTries\<close>. \<open>delta > 0\<close> is a signed comparison; \<open>uint(delta)\<close> and
  \<open>int(c.latestRunJobTries[jobId])\<close> keep the bits; \<open>cur+delta\<close> is Go's wrapping
  addition of two \<open>int\<close>, compared with zero as a signed number. The total is written
  first, into the store \<open>h1\<close>; \<open>cur\<close> is read after that write. A panic ends the call;
  the model returns the panic alone.
\<close>

definition IncrementJobTries :: "store \<Rightarrow> ChainRef \<Rightarrow> string \<Rightarrow> go_int \<Rightarrow> panic + store" where
  "IncrementJobTries h c jobId delta =
     (case (if 0 < sint delta
            then put_tries h (ref_totalJobTries c) jobId
                   (tries_at (tries_of h (ref_totalJobTries c)) jobId + delta)
            else Inr h) of
        Inl p \<Rightarrow> Inl p
      | Inr h1 \<Rightarrow>
          let cur = tries_at (tries_of h1 (ref_latestRunJobTries c)) jobId in
          if sint (cur + delta) < 0 then Inl (NegativeJobTries jobId)
          else put_tries h1 (ref_latestRunJobTries c) jobId (cur + delta))"

text \<open>\<open>IncrementSequenceTries\<close> has no check of the sum.\<close>

definition IncrementSequenceTries :: "store \<Rightarrow> ChainRef \<Rightarrow> string \<Rightarrow> go_int \<Rightarrow> panic + store" where
  "IncrementSequenceTries h c jobId delta =
     (let seqId = job_SequenceId (job_at (jc_Jobs (st_jobChains h (ref_jobChain c))) jobId);
          cur = tries_at (tries_of h (ref_sequenceTries c)) seqId
      in put_tries h (ref_sequenceTries c) seqId (cur + delta))"

section \<open>Construction and suspension\<close>

text \<open>
  Modelled from the spec: the type \<open>proto.SuspendedJobChain\<close> is declared in package
  \<open>proto\<close>; the fields are the ones \<open>ToSuspended\<close> sets.
\<close>

record SuspendedJobChain =
  sjc_RequestId :: string
  sjc_JobChain :: nat
  sjc_TotalJobTries :: "nat option"
  sjc_LatestRunJobTries :: "nat option"
  sjc_SequenceTries :: "nat option"

text \<open>
  The loop of \<open>NewChain\<close> over the jobs, visited in the order \<open>ks\<close>: a job whose
  \<open>Data\<close> is \<open>nil\<close> gets an empty map, and every job is stored back.
\<close>

fun NewChain_loop :: "(string \<rightharpoonup> Job) \<Rightarrow> string list \<Rightarrow> (string \<rightharpoonup> Job)" where
  "NewChain_loop jobs [] = jobs"
| "NewChain_loop jobs (jobName # ks) =
     (case jobs jobName of
        None \<Rightarrow> NewChain_loop jobs ks
      | Some job \<Rightarrow>
          let job' = (if job_Data job = None then job\<lparr>job_Data := Some Map.empty\<rparr> else job)
          in NewChain_loop (jobs(jobName \<mapsto> job')) ks)"

definition NewChain ::
  "store \<Rightarrow> string list \<Rightarrow> nat \<Rightarrow> nat option \<Rightarrow> nat option \<Rightarrow> nat option \<Rightarrow> store \<times> ChainRef" where
  "NewChain h ks jc seqTries totTries latestTries =
     (let jobs = NewChain_loop (jc_Jobs (st_jobChains h jc)) ks;
          h' = h\<lparr>st_jobChains := (st_jobChains h)(jc := (st_jobChains h jc)\<lparr>jc_Jobs := jobs\<rparr>)\<rparr>
      in (h', \<lparr>ref_jobChain = jc, ref_sequenceTries = seqTries,
               ref_latestRunJobTries = latestTries, ref_totalJobTries = totTries\<rparr>))"

definition ToSuspended :: "store \<Rightarrow> ChainRef \<Rightarrow> SuspendedJobChain" where
  "ToSuspended h c =
     \<lparr>sjc_RequestId = RequestId (chain_of h c),
      sjc_JobChain = ref_jobChain c,
      sjc_TotalJobTries = ref_totalJobTries c,
      sjc_LatestRunJobTries = ref_latestRunJobTries c,
      sjc_SequenceTries = ref_sequenceTries c\<rparr>"

text \<open>Two jobs that differ at most in \<open>Data\<close>, and two chains whose jobs do.\<close>

definition same_but_Data :: "Job \<Rightarrow> Job \<Rightarrow> bool" where
  "same_but_Data j j' \<longleftrightarrow> j' = j\<lparr>job_Data := job_Data j'\<rparr>"

definition chains_same_but_Data :: "Chain \<Rightarrow> Chain \<Rightarrow> bool" where
  "chains_same_but_Data c c' \<longleftrightarrow>
     (\<forall>k. rel_option same_but_Data (jc_Jobs (jobChain c) k) (jc_Jobs (jobChain c') k)) \<and>
     jc_RequestId (jobChain c') = jc_RequestId (jobChain c) \<and>
     jc_AdjacencyList (jobChain c') = jc_AdjacencyList (jobChain c) \<and>
     jc_State (jobChain c') = jc_State (jobChain c) \<and>
     jc_FinishedJobs (jobChain c') = jc_FinishedJobs (jobChain c) \<and>
     sequenceTries c' = sequenceTries c \<and>
     latestRunJobTries c' = latestRunJobTries c \<and>
     totalJobTries c' = totalJobTries c"

text \<open>A store for the examples: the chain of scenario S2 at every address.\<close>

definition example_store :: store where
  "example_store = \<lparr>st_jobChains = (\<lambda>a. jobChain chain_S2), st_tries = (\<lambda>a. Map.empty)\<rparr>"

definition example_ref :: ChainRef where
  "example_ref = \<lparr>ref_jobChain = 0, ref_sequenceTries = Some 1, ref_latestRunJobTries = Some 2,
                  ref_totalJobTries = Some 3\<rparr>"

text \<open>
  The chain of the retry tests in a store: the sequence tries at address 1, the
  latest-run tries at address 2, the total tries at address 3, an empty map at every
  other address. The three other
  references are the same chain with no total map, with no latest-run map, and with one
  map (the one at address 2) for both.
\<close>

definition retry_store :: "uint \<Rightarrow> uint \<Rightarrow> uint \<Rightarrow> store" where
  "retry_store seqTries latestTries totalTries =
     \<lparr>st_jobChains = (\<lambda>a. jobChain (retry_chain seqTries latestTries totalTries)),
      st_tries = (\<lambda>a. if a = 1 then [''job1'' \<mapsto> seqTries]
                      else if a = 2 then [''job2'' \<mapsto> latestTries]
                      else if a = 3 then [''job2'' \<mapsto> totalTries]
                      else Map.empty)\<rparr>"

definition retry_ref :: ChainRef where
  "retry_ref = \<lparr>ref_jobChain = 0, ref_sequenceTries = Some 1, ref_latestRunJobTries = Some 2,
                ref_totalJobTries = Some 3\<rparr>"

definition nil_total_ref :: ChainRef where
  "nil_total_ref = \<lparr>ref_jobChain = 0, ref_sequenceTries = Some 1, ref_latestRunJobTries = Some 2,
                    ref_totalJobTries = None\<rparr>"

definition nil_latest_ref :: ChainRef where
  "nil_latest_ref = \<lparr>ref_jobChain = 0, ref_sequenceTries = Some 1, ref_latestRunJobTries = None,
                     ref_totalJobTries = Some 3\<rparr>"

definition one_map_ref :: ChainRef where
  "one_map_ref = \<lparr>ref_jobChain = 0, ref_sequenceTries = Some 1, ref_latestRunJobTries = Some 2,
                  ref_totalJobTries = Some 2\<rparr>"

section \<open>Properties of the runnability predicate and the completion oracle\<close>

lemmas STATE_defs = STATE_UNKNOWN_def STATE_PENDING_def STATE_RUNNING_def STATE_COMPLETE_def
  STATE_FAIL_def STATE_STOPPED_def

lemma STATE_distinct:
  "STATE_UNKNOWN \<noteq> STATE_PENDING" "STATE_UNKNOWN \<noteq> STATE_RUNNING" "STATE_UNKNOWN \<noteq> STATE_COMPLETE"
  "STATE_UNKNOWN \<noteq> STATE_FAIL" "STATE_UNKNOWN \<noteq> STATE_STOPPED"
  "STATE_PENDING \<noteq> STATE_RUNNING" "STATE_PENDING \<noteq> STATE_COMPLETE"
  "STATE_PENDING \<noteq> STATE_FAIL" "STATE_PENDING \<noteq> STATE_STOPPED"
  "STATE_RUNNING \<noteq> STATE_COMPLETE" "STATE_RUNNING \<noteq> STATE_FAIL" "STATE_RUNNING \<noteq> STATE_STOPPED"
  "STATE_COMPLETE \<noteq> STATE_FAIL" "STATE_COMPLETE \<noteq> STATE_STOPPED"
  "STATE_FAIL \<noteq> STATE_STOPPED"
  by (simp_all add: STATE_defs)

lemma valid_states_mem:
  "STATE_PENDING \<in> valid_job_states" "STATE_RUNNING \<in> valid_job_states"
  "STATE_COMPLETE \<in> valid_job_states" "STATE_FAIL \<in> valid_job_states"
  "STATE_STOPPED \<in> valid_job_states" "STATE_UNKNOWN \<in> valid_job_states"
  by (simp_all add: valid_job_states_def)

lemma contains_iff: "contains s t \<longleftrightarrow> t \<in> set s"
  by (induction s) auto

lemma all_complete_iff: "all_complete jobs \<longleftrightarrow> (\<forall>job \<in> set jobs. job_State job = STATE_COMPLETE)"
  by (induction jobs) auto

lemma set_previousJobs_loop:
  "set (previousJobs_loop jc aks jobId prevJobs) =
     set prevJobs \<union> {val. \<exists>p \<in> set aks. \<exists>nextJobs. jc_AdjacencyList jc p = Some nextJobs \<and>
        jobId \<in> set nextJobs \<and> jc_Jobs jc p = Some val}"
proof (induction aks arbitrary: prevJobs)
  case Nil
  show ?case by simp
next
  case (Cons p aks)
  show ?case
    by (auto simp: Cons.IH contains_iff split: option.splits)
qed

lemma isRunnable_iff:
  assumes "set aks = dom (jc_AdjacencyList (jobChain c))"
  shows "isRunnable c aks jobId \<longleftrightarrow>
    job_State (job_at (jc_Jobs (jobChain c)) jobId) = STATE_PENDING \<and>
    (\<forall>p nextJobs pj. jc_AdjacencyList (jobChain c) p = Some nextJobs \<and> jobId \<in> set nextJobs \<and>
        jc_Jobs (jobChain c) p = Some pj \<longrightarrow> job_State pj = STATE_COMPLETE)"
proof -
  have "set (previousJobs c aks jobId) =
     {val. \<exists>p nextJobs. jc_AdjacencyList (jobChain c) p = Some nextJobs \<and>
        jobId \<in> set nextJobs \<and> jc_Jobs (jobChain c) p = Some val}"
    unfolding previousJobs_def set_previousJobs_loop using assms by auto
  then show ?thesis
    by (auto simp: isRunnable_def Let_def all_complete_iff)
qed

lemma IsDoneRunning_loop_true_true:
  "IsDoneRunning_loop c aks ks complete = Inr (True, True) \<longleftrightarrow>
     complete \<and> (\<forall>k \<in> set ks. \<forall>job. jc_Jobs (jobChain c) k = Some job \<longrightarrow> job_State job = STATE_COMPLETE)"
proof (induction ks arbitrary: complete)
  case Nil
  show ?case by simp
next
  case (Cons k ks)
  show ?case
    by (cases "jc_Jobs (jobChain c) k") (simp_all add: Cons.IH)
qed

lemma IsDoneRunning_loop_valid:
  assumes "\<forall>k \<in> set ks. \<forall>job. jc_Jobs (jobChain c) k = Some job \<longrightarrow> job_State job \<in> valid_job_states"
  shows "IsDoneRunning_loop c aks ks complete =
     (if \<exists>k \<in> set ks. \<exists>job. jc_Jobs (jobChain c) k = Some job \<and> blocks c aks job
      then Inr (False, False)
      else Inr (True, complete \<and>
             (\<forall>k \<in> set ks. \<forall>job. jc_Jobs (jobChain c) k = Some job \<longrightarrow> job_State job = STATE_COMPLETE)))"
  using assms
proof (induction ks arbitrary: complete)
  case Nil
  show ?case by simp
next
  case (Cons k ks)
  have IH: "\<And>b. IsDoneRunning_loop c aks ks b =
     (if \<exists>k \<in> set ks. \<exists>job. jc_Jobs (jobChain c) k = Some job \<and> blocks c aks job
      then Inr (False, False)
      else Inr (True, b \<and>
             (\<forall>k \<in> set ks. \<forall>job. jc_Jobs (jobChain c) k = Some job \<longrightarrow> job_State job = STATE_COMPLETE)))"
    using Cons.IH Cons.prems by simp
  show ?case
  proof (cases "jc_Jobs (jobChain c) k")
    case None
    then show ?thesis by (simp add: IH)
  next
    case (Some job)
    have v: "job_State job \<in> valid_job_states" using Cons.prems Some by simp
    then show ?thesis using Some STATE_distinct
      by (auto simp: IH blocks_def valid_job_states_def)
  qed
qed

lemma scenario_keys:
  "key_order (jc_Jobs (jobChain (scenario_chain s1 s2 s3 s4))) [''job1'', ''job2'', ''job3'', ''job4'']"
  by (auto simp: key_order_def scenario_chain_def)

lemma scenario_adj_keys:
  "key_order (jc_AdjacencyList (jobChain (scenario_chain s1 s2 s3 s4))) [''job1'', ''job2'']"
  by (auto simp: key_order_def scenario_chain_def)

lemma scenario_valid:
  assumes "s1 \<in> valid_job_states" "s2 \<in> valid_job_states" "s3 \<in> valid_job_states" "s4 \<in> valid_job_states"
  shows "\<forall>k job. jc_Jobs (jobChain (scenario_chain s1 s2 s3 s4)) k = Some job \<longrightarrow> job_State job \<in> valid_job_states"
  using assms by (auto simp: scenario_chain_def init_job_def split: if_splits)

lemma scenario_isRunnable_job4:
  assumes "key_order (jc_AdjacencyList (jobChain (scenario_chain s1 s2 s3 s4))) aks"
  shows "isRunnable (scenario_chain s1 s2 s3 s4) aks ''job4'' \<longleftrightarrow> s4 = STATE_PENDING \<and> s2 = STATE_COMPLETE"
proof -
  have aks: "set aks = dom (jc_AdjacencyList (jobChain (scenario_chain s1 s2 s3 s4)))"
    using assms by (simp add: key_order_def)
  show ?thesis
    unfolding isRunnable_iff [OF aks]
    by (auto simp: scenario_chain_def init_job_def job_at_def split: if_splits)
qed

text \<open>
  Claim C1. For every chain whose job states all lie in PENDING, RUNNING, COMPLETE, FAIL,
  STOPPED, UNKNOWN, and for every order in which the scan visits the jobs,
  \<open>IsDoneRunning\<close> returns \<open>(true, true)\<close> if and only if every job of the chain is
  in state COMPLETE.
\<close>

theorem IsDoneRunning_complete_iff:
  assumes "key_order (jc_Jobs (jobChain c)) ks"
    and "\<forall>k job. jc_Jobs (jobChain c) k = Some job \<longrightarrow> job_State job \<in> valid_job_states"
  shows "IsDoneRunning c ks aks = Inr (True, True) \<longleftrightarrow>
         (\<forall>k job. jc_Jobs (jobChain c) k = Some job \<longrightarrow> job_State job = STATE_COMPLETE)"
proof -
  have "set ks = dom (jc_Jobs (jobChain c))"
    using assms(1) by (simp add: key_order_def)
  then show ?thesis
    unfolding IsDoneRunning_def IsDoneRunning_loop_true_true by fastforce
qed

theorem IsDoneRunning_complete_iff_witness:
  "IsDoneRunning chain_done [''job1'', ''job2'', ''job3'', ''job4''] [''job1'', ''job2''] = Inr (True, True)"
proof -
  have k: "key_order (jc_Jobs (jobChain chain_done)) [''job1'', ''job2'', ''job3'', ''job4'']"
    unfolding chain_done_def by (rule scenario_keys)
  have a: "\<forall>k job. jc_Jobs (jobChain chain_done) k = Some job \<longrightarrow> job_State job = STATE_COMPLETE"
    by (auto simp: chain_done_def scenario_chain_def init_job_def split: if_splits)
  then have v: "\<forall>k job. jc_Jobs (jobChain chain_done) k = Some job \<longrightarrow> job_State job \<in> valid_job_states"
    by (simp add: valid_job_states_def)
  show ?thesis
    using IsDoneRunning_complete_iff [OF k v, of "[''job1'', ''job2'']"] a by blast
qed




text \<open>
  Claim C3. In the chain with edges 1 to 2 and 3, and 2 to 4: with job1 and job2 COMPLETE,
  job3 STOPPED and job4 PENDING, job4 is runnable and \<open>IsDoneRunning\<close> returns
  \<open>(false, false)\<close>; with job1 COMPLETE, job2 STOPPED, job3 COMPLETE and job4 PENDING,
  job4 is not runnable and \<open>IsDoneRunning\<close> returns \<open>(true, false)\<close>. A stopped job
  blocks the jobs after it only. This holds for every order of the two map scans.
\<close>

theorem scenarios_S2_S3:
  assumes "key_order (jc_Jobs (jobChain chain_S2)) ks"
    and "key_order (jc_AdjacencyList (jobChain chain_S2)) aks"
  shows "IsRunnable chain_S2 aks ''job4'' \<and>
         IsDoneRunning chain_S2 ks aks = Inr (False, False) \<and>
         \<not> IsRunnable chain_S3 aks ''job4'' \<and>
         IsDoneRunning chain_S3 ks aks = Inr (True, False)"
proof -
  have ks: "set ks = {''job1'', ''job2'', ''job3'', ''job4''}"
    using assms(1) by (auto simp: key_order_def chain_S2_def scenario_chain_def)
  have aks2: "key_order (jc_AdjacencyList (jobChain (scenario_chain STATE_COMPLETE STATE_COMPLETE STATE_STOPPED STATE_PENDING))) aks"
    using assms(2) by (simp add: chain_S2_def)
  have aks3: "key_order (jc_AdjacencyList (jobChain (scenario_chain STATE_COMPLETE STATE_STOPPED STATE_COMPLETE STATE_PENDING))) aks"
    using assms(2) by (simp add: chain_S2_def scenario_chain_def)
  have r2: "isRunnable chain_S2 aks ''job4''"
    unfolding chain_S2_def scenario_isRunnable_job4 [OF aks2] by simp
  have r3: "\<not> isRunnable chain_S3 aks ''job4''"
    unfolding chain_S3_def scenario_isRunnable_job4 [OF aks3] using STATE_distinct by simp
  have v2: "\<forall>k \<in> set ks. \<forall>job. jc_Jobs (jobChain chain_S2) k = Some job \<longrightarrow> job_State job \<in> valid_job_states"
    unfolding chain_S2_def using scenario_valid valid_states_mem by blast
  have v3: "\<forall>k \<in> set ks. \<forall>job. jc_Jobs (jobChain chain_S3) k = Some job \<longrightarrow> job_State job \<in> valid_job_states"
    unfolding chain_S3_def using scenario_valid valid_states_mem by blast
  have b2: "\<exists>k \<in> set ks. \<exists>job. jc_Jobs (jobChain chain_S2) k = Some job \<and> blocks chain_S2 aks job"
  proof -
    have "jc_Jobs (jobChain chain_S2) ''job4'' = Some (init_job ''job4'' STATE_PENDING)"
      by (simp add: chain_S2_def scenario_chain_def)
    moreover have "blocks chain_S2 aks (init_job ''job4'' STATE_PENDING)"
      using r2 by (simp add: blocks_def init_job_def)
    ultimately show ?thesis using ks by blast
  qed
  have d2: "IsDoneRunning chain_S2 ks aks = Inr (False, False)"
    unfolding IsDoneRunning_def IsDoneRunning_loop_valid [OF v2] using b2 by simp
  have nb3: "\<not> (\<exists>k \<in> set ks. \<exists>job. jc_Jobs (jobChain chain_S3) k = Some job \<and> blocks chain_S3 aks job)"
    using r3 STATE_distinct
    by (auto simp: ks blocks_def chain_S3_def scenario_chain_def init_job_def)
  have nc3: "\<not> (\<forall>k \<in> set ks. \<forall>job. jc_Jobs (jobChain chain_S3) k = Some job \<longrightarrow> job_State job = STATE_COMPLETE)"
    using STATE_distinct by (simp add: ks chain_S3_def scenario_chain_def init_job_def)
  have d3: "IsDoneRunning chain_S3 ks aks = Inr (True, False)"
    unfolding IsDoneRunning_def IsDoneRunning_loop_valid [OF v3] using nb3 nc3 by simp
  show ?thesis using r2 r3 d2 d3 by (simp add: IsRunnable_def)
qed

theorem scenarios_S2_S3_witness:
  "IsRunnable chain_S2 [''job2'', ''job1''] ''job4'' \<and>
   IsDoneRunning chain_S2 [''job3'', ''job1'', ''job4'', ''job2''] [''job2'', ''job1''] = Inr (False, False) \<and>
   \<not> IsRunnable chain_S3 [''job2'', ''job1''] ''job4'' \<and>
   IsDoneRunning chain_S3 [''job3'', ''job1'', ''job4'', ''job2''] [''job2'', ''job1''] = Inr (True, False)"
proof -
  have k: "key_order (jc_Jobs (jobChain chain_S2)) [''job3'', ''job1'', ''job4'', ''job2'']"
    by (auto simp: key_order_def chain_S2_def scenario_chain_def)
  have a: "key_order (jc_AdjacencyList (jobChain chain_S2)) [''job2'', ''job1'']"
    by (auto simp: key_order_def chain_S2_def scenario_chain_def)
  show ?thesis by (rule scenarios_S2_S3 [OF k a])
qed

text \<open>
  Claim C4. For every chain and every job id present in Jobs, \<open>IsRunnable\<close> returns
  true if and only if the job's state is PENDING and every job with an edge of the
  adjacency list into the id has state COMPLETE; so it returns false whenever the job's
  state is STOPPED, FAIL, UNKNOWN, RUNNING or COMPLETE.
\<close>

theorem IsRunnable_iff:
  assumes "key_order (jc_AdjacencyList (jobChain c)) aks"
    and "jc_Jobs (jobChain c) jobId = Some job"
  shows "(IsRunnable c aks jobId \<longleftrightarrow>
           job_State job = STATE_PENDING \<and>
           (\<forall>p nextJobs pj. jc_AdjacencyList (jobChain c) p = Some nextJobs \<and> jobId \<in> set nextJobs \<and>
               jc_Jobs (jobChain c) p = Some pj \<longrightarrow> job_State pj = STATE_COMPLETE)) \<and>
         (job_State job \<in> {STATE_STOPPED, STATE_FAIL, STATE_UNKNOWN, STATE_RUNNING, STATE_COMPLETE}
            \<longrightarrow> \<not> IsRunnable c aks jobId)"
proof -
  have aks: "set aks = dom (jc_AdjacencyList (jobChain c))"
    using assms(1) by (simp add: key_order_def)
  have j: "job_at (jc_Jobs (jobChain c)) jobId = job"
    using assms(2) by (simp add: job_at_def)
  show ?thesis
    unfolding IsRunnable_def isRunnable_iff [OF aks] j using STATE_distinct by auto
qed

theorem IsRunnable_iff_witness:
  "IsRunnable chain_S2 [''job1'', ''job2''] ''job4'' \<and>
   job_State (init_job ''job4'' STATE_PENDING) = STATE_PENDING"
proof -
  have a: "key_order (jc_AdjacencyList (jobChain chain_S2)) [''job1'', ''job2'']"
    unfolding chain_S2_def by (rule scenario_adj_keys)
  have j: "jc_Jobs (jobChain chain_S2) ''job4'' = Some (init_job ''job4'' STATE_PENDING)"
    by (simp add: chain_S2_def scenario_chain_def)
  have p: "\<forall>p nextJobs pj. jc_AdjacencyList (jobChain chain_S2) p = Some nextJobs \<and>
      ''job4'' \<in> set nextJobs \<and> jc_Jobs (jobChain chain_S2) p = Some pj \<longrightarrow> job_State pj = STATE_COMPLETE"
    by (auto simp: chain_S2_def scenario_chain_def init_job_def split: if_splits)
  have s: "job_State (init_job ''job4'' STATE_PENDING) = STATE_PENDING"
    by (simp add: init_job_def)
  show ?thesis using IsRunnable_iff [OF a j] p s by blast
qed


section \<open>Properties of the try counters and the state mutators\<close>

text \<open>Go's wrapping addition of an unsigned counter and a signed delta, read back as numbers.\<close>

lemma go_add_eq: "(a :: 64 word) + d = word_of_int (uint a + sint d)"
proof -
  have "word_of_int (uint a + sint d) = (word_of_int (uint a) :: 64 word) + word_of_int (sint d)"
    by (simp add: wi_hom_add)
  then show ?thesis by simp
qed

lemma go_add_sint:
  assumes "- (2 ^ 63) \<le> uint a + sint d" "uint a + sint d < 2 ^ 63"
  shows "sint ((a :: 64 word) + d) = uint a + sint d"
  unfolding go_add_eq [of a d] sint_sbintrunc' using assms
  by (simp add: signed_take_bit_int_eq_self)

lemma go_add_uint:
  assumes "0 \<le> uint a + sint d" "uint a + sint d < 2 ^ 64"
  shows "uint ((a :: 64 word) + d) = uint a + sint d"
  unfolding go_add_eq [of a d] uint_word_of_int using assms
  by simp

lemma go_add_negative:
  assumes "uint a + sint d < 0"
  shows "sint ((a :: 64 word) + d) < 0"
proof -
  have a0: "0 \<le> uint a" by simp
  have d0: "- 9223372036854775808 \<le> sint d"
    using sint_greater_eq [of d] by simp
  from a0 d0 have "- 9223372036854775808 \<le> uint a + sint d" by linarith
  then have "- (2 ^ 63) \<le> uint a + sint d" by simp
  then have "sint (a + d) = uint a + sint d"
    by (rule go_add_sint) (use assms in simp)
  then show ?thesis using assms by simp
qed

lemma uint_bounds: "0 \<le> uint (a :: 64 word)" "uint a < 2 ^ 64"
  using uint_lt2p [of a] by simp_all

lemma word_le_2_iff: "(t :: uint) \<le> 2 \<longleftrightarrow> t \<in> {0, 1, 2}"
proof -
  have "t \<le> 2 \<longleftrightarrow> unat t \<le> 2" by (simp add: word_le_nat_alt)
  also have "\<dots> \<longleftrightarrow> unat t = 0 \<or> unat t = 1 \<or> unat t = 2" by auto
  also have "\<dots> \<longleftrightarrow> unat t = unat (0::uint) \<or> unat t = unat (1::uint) \<or> unat t = unat (2::uint)" by simp
  also have "\<dots> \<longleftrightarrow> t \<in> {0, 1, 2}"
    unfolding word_unat_eq_iff [symmetric] by simp
  finally show ?thesis .
qed

lemma tries_at_upd: "tries_at (m(k \<mapsto> v)) k' = (if k' = k then v else tries_at m k')"
  by (simp add: tries_at_def)

text \<open>The sign of a 64-bit word read as an \<open>int\<close>: negative from \<open>2^63\<close> on.\<close>

lemma div_top_half:
  fixes x n :: int
  assumes "0 \<le> x" "x < 2 * n"
  shows "odd (x div n) \<longleftrightarrow> n \<le> x"
proof (cases "x < n")
  case True
  then have "x div n = 0" using assms by simp
  then show ?thesis using True by simp
next
  case False
  then have "0 \<le> x - n" "x - n < n" using assms by simp_all
  then have "(x - n) div n = 0" by simp
  moreover have "0 < n" using assms by linarith
  then have "x div n = (x - n) div n + 1"
    by (metis add.commute diff_add_cancel div_add_self1 less_int_code(1) nless_le)
  ultimately have "x div n = 1" by simp
  then show ?thesis using False by simp
qed

lemma sint_negative_iff: "sint (w :: 64 word) < 0 \<longleftrightarrow> 2 ^ 63 \<le> uint w"
proof -
  have "sint w < 0 \<longleftrightarrow> bit (uint w) 63"
    using bit_last_iff [of w] by (simp add: bit_uint_iff)
  also have "\<dots> \<longleftrightarrow> odd (uint w div 2 ^ 63)"
    by (simp only: bit_iff_odd)
  also have "\<dots> \<longleftrightarrow> 2 ^ 63 \<le> uint w"
    by (rule div_top_half) (use uint_bounds [of w] in simp_all)
  finally show ?thesis .
qed

lemma sint_nonneg_iff: "\<not> sint (w :: 64 word) < 0 \<longleftrightarrow> uint w < 2 ^ 63"
  unfolding sint_negative_iff by auto

lemma retry_chain_start:
  "jc_Jobs (jobChain (retry_chain n l t)) (job_SequenceId (job_at (jc_Jobs (jobChain (retry_chain n l t))) ''job2''))
     = Some (retry_job ''job1'' STATE_COMPLETE)"
  by (simp add: retry_chain_def retry_job_def job_at_def)

text \<open>
  Claim C5. For every chain and every job id whose SequenceId names an existing job \<open>s\<close>,
  \<open>CanRetrySequence\<close> returns true if and only if the sequence tries recorded under
  the id of \<open>s\<close> are at most the SequenceRetry of \<open>s\<close>; so a sequence-start job
  with SequenceRetry 2 admits three attempts: the answer is true exactly for 0, 1 and 2
  recorded tries.
\<close>

theorem CanRetrySequence_iff:
  assumes "jc_Jobs (jobChain c) (job_SequenceId (job_at (jc_Jobs (jobChain c)) jobId)) = Some s"
  shows "(CanRetrySequence c jobId \<longleftrightarrow> tries_at (sequenceTries c) (job_Id s) \<le> job_SequenceRetry s) \<and>
         (job_SequenceRetry s = 2 \<longrightarrow>
            (CanRetrySequence c jobId \<longleftrightarrow> tries_at (sequenceTries c) (job_Id s) \<in> {0, 1, 2}))"
proof -
  have s: "SequenceStartJob c jobId = s"
    using assms by (simp add: SequenceStartJob_def job_at_def)
  show ?thesis
    by (simp add: CanRetrySequence_def Let_def s word_le_2_iff)
qed

theorem CanRetrySequence_iff_witness:
  "CanRetrySequence (retry_chain 0 0 0) ''job2'' \<and> CanRetrySequence (retry_chain 1 0 0) ''job2'' \<and>
   CanRetrySequence (retry_chain 2 0 0) ''job2'' \<and> \<not> CanRetrySequence (retry_chain 3 0 0) ''job2''"
proof -
  have r: "job_SequenceRetry (retry_job ''job1'' STATE_COMPLETE) = 2"
    "job_Id (retry_job ''job1'' STATE_COMPLETE) = ''job1''"
    by (simp_all add: retry_job_def)
  have t: "\<And>n. tries_at (sequenceTries (retry_chain n 0 0)) ''job1'' = n"
    by (simp add: retry_chain_def tries_at_def)
  show ?thesis
    using CanRetrySequence_iff [OF retry_chain_start, of 0 0 0]
      CanRetrySequence_iff [OF retry_chain_start, of 1 0 0]
      CanRetrySequence_iff [OF retry_chain_start, of 2 0 0]
      CanRetrySequence_iff [OF retry_chain_start, of 3 0 0]
    by (simp add: r t)
qed

text \<open>
  Claim C10. For every chain and every job id present in Jobs, \<open>SetJobState\<close> sets the
  State of that job and leaves everything else as it was: the other fields of the job,
  every other job, the adjacency list, the request id, FinishedJobs, the state of the
  chain, and the three maps of tries.
\<close>

theorem SetJobState_frame:
  assumes "jc_Jobs (jobChain c) jobId = Some job"
  shows "\<exists>job'. jc_Jobs (jobChain (SetJobState c jobId state)) jobId = Some job' \<and>
           job_State job' = state \<and>
           job_Id job' = job_Id job \<and>
           job_SequenceId job' = job_SequenceId job \<and>
           job_SequenceRetry job' = job_SequenceRetry job \<and>
           job_Retry job' = job_Retry job \<and>
           job_Data job' = job_Data job \<and>
           (\<forall>k. k \<noteq> jobId \<longrightarrow>
              jc_Jobs (jobChain (SetJobState c jobId state)) k = jc_Jobs (jobChain c) k) \<and>
           dom (jc_Jobs (jobChain (SetJobState c jobId state))) = dom (jc_Jobs (jobChain c)) \<and>
           jc_AdjacencyList (jobChain (SetJobState c jobId state)) = jc_AdjacencyList (jobChain c) \<and>
           jc_RequestId (jobChain (SetJobState c jobId state)) = jc_RequestId (jobChain c) \<and>
           jc_FinishedJobs (jobChain (SetJobState c jobId state)) = jc_FinishedJobs (jobChain c) \<and>
           jc_State (jobChain (SetJobState c jobId state)) = jc_State (jobChain c) \<and>
           sequenceTries (SetJobState c jobId state) = sequenceTries c \<and>
           latestRunJobTries (SetJobState c jobId state) = latestRunJobTries c \<and>
           totalJobTries (SetJobState c jobId state) = totalJobTries c"
  using assms by (auto simp: SetJobState_def Let_def job_at_def)

theorem SetJobState_frame_witness:
  "\<exists>job'. jc_Jobs (jobChain (SetJobState chain_S2 ''job4'' STATE_RUNNING)) ''job4'' = Some job' \<and>
     job_State job' = STATE_RUNNING \<and> job_Id job' = ''job4'' \<and>
     jc_Jobs (jobChain (SetJobState chain_S2 ''job4'' STATE_RUNNING)) ''job2''
       = Some (init_job ''job2'' STATE_COMPLETE)"
proof -
  have j: "jc_Jobs (jobChain chain_S2) ''job4'' = Some (init_job ''job4'' STATE_PENDING)"
    by (simp add: chain_S2_def scenario_chain_def)
  have j2: "jc_Jobs (jobChain chain_S2) ''job2'' = Some (init_job ''job2'' STATE_COMPLETE)"
    by (simp add: chain_S2_def scenario_chain_def)
  have i: "job_Id (init_job ''job4'' STATE_PENDING) = ''job4''"
    by (simp add: init_job_def)
  from SetJobState_frame [OF j, of STATE_RUNNING] obtain job' where
    "jc_Jobs (jobChain (SetJobState chain_S2 ''job4'' STATE_RUNNING)) ''job4'' = Some job'"
    "job_State job' = STATE_RUNNING" "job_Id job' = job_Id (init_job ''job4'' STATE_PENDING)"
    "\<forall>k. k \<noteq> ''job4'' \<longrightarrow>
        jc_Jobs (jobChain (SetJobState chain_S2 ''job4'' STATE_RUNNING)) k = jc_Jobs (jobChain chain_S2) k"
    by blast
  then show ?thesis using i j2 by auto
qed

section \<open>Properties of the methods that write the maps of tries\<close>

text \<open>The sum of a counter and a delta, read as a number, when it is the number sum.\<close>

lemma go_add_uint_iff:
  assumes "0 \<le> uint a + sint d"
  shows "uint ((a :: 64 word) + d) = uint a + sint d \<longleftrightarrow> uint a + sint d < 2 ^ 64"
proof
  assume "uint (a + d) = uint a + sint d"
  then show "uint a + sint d < 2 ^ 64" using uint_bounds(2) [of "a + d"] by simp
next
  assume "uint a + sint d < 2 ^ 64"
  then show "uint (a + d) = uint a + sint d" by (rule go_add_uint [OF assms])
qed

lemma put_tries_None: "put_tries h None k v = Inl NilMapWrite"
  by (simp add: put_tries_def)

lemma put_tries_Some:
  "put_tries h (Some a) k v = Inr (h\<lparr>st_tries := (st_tries h)(a := (st_tries h a)(k \<mapsto> v))\<rparr>)"
  by (simp add: put_tries_def)

lemma tries_of_upd:
  "tries_of (h\<lparr>st_tries := (st_tries h)(a := m)\<rparr>) r = (if r = Some a then m else tries_of h r)"
  by (simp add: tries_of_def split: option.splits)

lemma chain_of_tries:
  "latestRunJobTries (chain_of h c) = tries_of h (ref_latestRunJobTries c)"
  "totalJobTries (chain_of h c) = tries_of h (ref_totalJobTries c)"
  "sequenceTries (chain_of h c) = tries_of h (ref_sequenceTries c)"
  "jobChain (chain_of h c) = st_jobChains h (ref_jobChain c)"
  by (simp_all add: chain_of_def)

text \<open>What a call does, by the sign of the delta and the shape of the two references.\<close>

lemma IncrementJobTries_pos_nil_total:
  assumes "0 < sint delta" "ref_totalJobTries c = None"
  shows "IncrementJobTries h c jobId delta = Inl NilMapWrite"
  using assms by (simp add: IncrementJobTries_def put_tries_None)

lemma IncrementJobTries_nil_latest:
  assumes "ref_latestRunJobTries c = None"
  shows "\<exists>p. IncrementJobTries h c jobId delta = Inl p"
  using assms
  by (cases "ref_totalJobTries c")
     (simp_all add: IncrementJobTries_def put_tries_None put_tries_Some Let_def tries_of_upd)

lemma IncrementJobTries_pos_distinct:
  assumes "0 < sint delta" "ref_totalJobTries c = Some a" "ref_latestRunJobTries c = Some b" "a \<noteq> b"
  shows "IncrementJobTries h c jobId delta =
           (if sint (tries_at (st_tries h b) jobId + delta) < 0 then Inl (NegativeJobTries jobId)
            else Inr (h\<lparr>st_tries := (st_tries h)
                   (a := (st_tries h a)(jobId \<mapsto> tries_at (st_tries h a) jobId + delta),
                    b := (st_tries h b)(jobId \<mapsto> tries_at (st_tries h b) jobId + delta))\<rparr>))"
  using assms
  by (simp add: IncrementJobTries_def put_tries_Some Let_def tries_of_def)

lemma IncrementJobTries_pos_one_map:
  assumes "0 < sint delta" "ref_totalJobTries c = Some a" "ref_latestRunJobTries c = Some a"
  shows "IncrementJobTries h c jobId delta =
           (if sint (tries_at (st_tries h a) jobId + delta + delta) < 0 then Inl (NegativeJobTries jobId)
            else Inr (h\<lparr>st_tries := (st_tries h)
                   (a := (st_tries h a)(jobId \<mapsto> tries_at (st_tries h a) jobId + delta + delta))\<rparr>))"
  using assms
  by (simp add: IncrementJobTries_def put_tries_Some Let_def tries_of_def tries_at_upd)

lemma IncrementJobTries_nonpos:
  assumes "\<not> 0 < sint delta" "ref_latestRunJobTries c = Some b"
  shows "IncrementJobTries h c jobId delta =
           (if sint (tries_at (st_tries h b) jobId + delta) < 0 then Inl (NegativeJobTries jobId)
            else Inr (h\<lparr>st_tries := (st_tries h)
                   (b := (st_tries h b)(jobId \<mapsto> tries_at (st_tries h b) jobId + delta))\<rparr>))"
  using assms
  by (simp add: IncrementJobTries_def put_tries_Some Let_def tries_of_def)

lemma retry_store_chain: "chain_of (retry_store n l t) retry_ref = retry_chain n l t"
  by (simp add: chain_of_def retry_store_def retry_ref_def retry_chain_def tries_of_def)

lemma retry_store_upd:
  "(retry_store n l t)\<lparr>st_tries := (st_tries (retry_store n l t))(Suc 0 := [''job1'' \<mapsto> n'])\<rparr> = retry_store n' l t"
  "(retry_store n l t)\<lparr>st_tries := (st_tries (retry_store n l t))(2 := [''job2'' \<mapsto> l'])\<rparr> = retry_store n l' t"
  "(retry_store n l t)\<lparr>st_tries := (st_tries (retry_store n l t))(3 := [''job2'' \<mapsto> t'])\<rparr> = retry_store n l t'"
  by (auto simp: retry_store_def retry_chain_def fun_eq_iff)

text \<open>
  Claim C6, as stated, fails at the ends of the range of the counters and on chains whose
  maps of tries are \<open>nil\<close> or shared; \<open>NewChain\<close> stores the maps it is given,
  unchecked. With \<open>latestRunJobTries\<close> at the largest \<open>int\<close>, an increment by one
  makes \<open>cur+delta\<close> wrap to a negative number and the call panics. With
  \<open>totalJobTries\<close> at the largest \<open>uint\<close>, an increment by one wraps the total to
  zero. With \<open>latestRunJobTries\<close> beyond the largest \<open>int\<close>, \<open>int(cur)\<close> is negative
  and a delta of zero panics. With a \<open>nil\<close> map of total tries an increment by one
  panics on the write, and with a \<open>nil\<close> map of latest-run tries so does a delta of
  zero. With one map for both counters, an increment by one takes both from 1 to 3, and a
  decrement by one takes the total from 1 to 0.
\<close>

theorem IncrementJobTries_counterexample:
  "sint (1 :: go_int) = 1 \<and>
   IncrementJobTries (retry_store 0 9223372036854775807 0) retry_ref ''job2'' 1
     = Inl (NegativeJobTries ''job2'') \<and>
   IncrementJobTries (retry_store 0 0 18446744073709551615) retry_ref ''job2'' 1
     = Inr (retry_store 0 1 0) \<and>
   sint (0 :: go_int) = 0 \<and>
   IncrementJobTries (retry_store 0 9223372036854775808 9223372036854775808) retry_ref ''job2'' 0
     = Inl (NegativeJobTries ''job2'') \<and>
   IncrementJobTries (retry_store 0 0 0) nil_total_ref ''job2'' 1 = Inl NilMapWrite \<and>
   IncrementJobTries (retry_store 0 0 0) nil_latest_ref ''job2'' 0 = Inl NilMapWrite \<and>
   JobTries (chain_of (retry_store 0 1 1) one_map_ref) ''job2'' = (1, 1) \<and>
   IncrementJobTries (retry_store 0 1 1) one_map_ref ''job2'' 1 = Inr (retry_store 0 3 1) \<and>
   JobTries (chain_of (retry_store 0 3 1) one_map_ref) ''job2'' = (3, 3) \<and>
   sint (- 1 :: go_int) = - 1 \<and>
   IncrementJobTries (retry_store 0 1 1) one_map_ref ''job2'' (- 1) = Inr (retry_store 0 0 1) \<and>
   JobTries (chain_of (retry_store 0 0 1) one_map_ref) ''job2'' = (0, 0)"
proof -
  have "(18446744073709551615 :: uint) + 1 = 0"
    by (simp add: word_eq_iff_unsigned [where ?'a = nat])
  then have w: "(18446744073709551616 :: uint) = 0" by simp
  have rd: "\<And>n l t. tries_at (st_tries (retry_store n l t) 2) ''job2'' = l"
    "\<And>n l t. tries_at (st_tries (retry_store n l t) 3) ''job2'' = t"
    "\<And>n l t v. (st_tries (retry_store n l t) 2)(''job2'' \<mapsto> v) = [''job2'' \<mapsto> v]"
    "\<And>n l t v. (st_tries (retry_store n l t) 3)(''job2'' \<mapsto> v) = [''job2'' \<mapsto> v]"
    by (simp_all add: retry_store_def tries_at_def)
  have a: "IncrementJobTries (retry_store 0 9223372036854775807 0) retry_ref ''job2'' 1
     = Inl (NegativeJobTries ''job2'')"
    by (simp add: IncrementJobTries_def put_tries_def tries_of_def retry_ref_def rd)
  have b: "IncrementJobTries (retry_store 0 0 18446744073709551615) retry_ref ''job2'' 1
     = Inr (retry_store 0 1 0)"
    by (simp add: IncrementJobTries_def put_tries_def tries_of_def retry_ref_def rd w
        retry_store_upd)
  have c: "IncrementJobTries (retry_store 0 9223372036854775808 9223372036854775808) retry_ref ''job2'' 0
     = Inl (NegativeJobTries ''job2'')"
    by (simp add: IncrementJobTries_def put_tries_def tries_of_def retry_ref_def rd)
  have d: "IncrementJobTries (retry_store 0 0 0) nil_total_ref ''job2'' 1 = Inl NilMapWrite"
    by (simp add: IncrementJobTries_def put_tries_def nil_total_ref_def)
  have e: "IncrementJobTries (retry_store 0 0 0) nil_latest_ref ''job2'' 0 = Inl NilMapWrite"
    by (simp add: IncrementJobTries_def put_tries_def tries_of_def nil_latest_ref_def tries_at_def)
  have j: "\<And>n l t. JobTries (chain_of (retry_store n l t) one_map_ref) ''job2'' = (l, l)"
    by (simp add: JobTries_def chain_of_def tries_of_def one_map_ref_def rd)
  have f: "IncrementJobTries (retry_store 0 1 1) one_map_ref ''job2'' 1 = Inr (retry_store 0 3 1)"
    by (simp add: IncrementJobTries_def put_tries_def tries_of_def one_map_ref_def rd
        tries_at_upd retry_store_upd)
  have g: "IncrementJobTries (retry_store 0 1 1) one_map_ref ''job2'' (- 1) = Inr (retry_store 0 0 1)"
    by (simp add: IncrementJobTries_def put_tries_def tries_of_def one_map_ref_def rd
        tries_at_upd retry_store_upd)
  show ?thesis using a b c d e f g by (simp add: j)
qed

text \<open>
  Claim C6, amended. Let \<open>k\<close> be the signed value of the delta, and \<open>l\<close> and \<open>t\<close>
  the latest-run and total tries of the job before the call. For \<open>k > 0\<close>:
  \<open>IncrementJobTries\<close> returns with both counters grown by exactly \<open>k\<close> if and
  only if the two maps are allocated and are two distinct maps, \<open>l + k\<close> fits in an
  \<open>int\<close> and \<open>t + k\<close> fits in a \<open>uint\<close>. For a delta \<open>-k'\<close> with
  \<open>0 \<le> k' \<le> l\<close>: it returns with the total tries unchanged and the latest-run tries
  decreased by exactly \<open>k'\<close> if and only if the map of latest-run tries is allocated,
  \<open>l - k'\<close> fits in an \<open>int\<close>, and \<open>k'\<close> is zero or the two maps are distinct.
\<close>

theorem IncrementJobTries_effect:
  fixes k :: int
  assumes "sint delta = k"
    and "tries_at (latestRunJobTries (chain_of h c)) jobId = l"
    and "tries_at (totalJobTries (chain_of h c)) jobId = t"
  shows
   "(0 < k \<longrightarrow>
      ((\<exists>h'. IncrementJobTries h c jobId delta = Inr h' \<and>
             uint (tries_at (totalJobTries (chain_of h' c)) jobId) = uint t + k \<and>
             uint (tries_at (latestRunJobTries (chain_of h' c)) jobId) = uint l + k)
       \<longleftrightarrow> ref_totalJobTries c \<noteq> None \<and> ref_latestRunJobTries c \<noteq> None \<and>
           ref_totalJobTries c \<noteq> ref_latestRunJobTries c \<and>
           uint l + k < 2 ^ 63 \<and> uint t + k < 2 ^ 64)) \<and>
    (k \<le> 0 \<and> - k \<le> uint l \<longrightarrow>
      ((\<exists>h'. IncrementJobTries h c jobId delta = Inr h' \<and>
             tries_at (totalJobTries (chain_of h' c)) jobId = t \<and>
             uint (tries_at (latestRunJobTries (chain_of h' c)) jobId) = uint l - (- k))
       \<longleftrightarrow> ref_latestRunJobTries c \<noteq> None \<and> uint l - (- k) < 2 ^ 63 \<and>
           (k = 0 \<or> ref_totalJobTries c \<noteq> ref_latestRunJobTries c)))"
proof (intro conjI impI)
  assume kp: "0 < k"
  have pos: "0 < sint delta" using assms(1) kp by simp
  let ?A = "\<exists>h'. IncrementJobTries h c jobId delta = Inr h' \<and>
             uint (tries_at (totalJobTries (chain_of h' c)) jobId) = uint t + k \<and>
             uint (tries_at (latestRunJobTries (chain_of h' c)) jobId) = uint l + k"
  let ?B = "ref_totalJobTries c \<noteq> None \<and> ref_latestRunJobTries c \<noteq> None \<and>
           ref_totalJobTries c \<noteq> ref_latestRunJobTries c \<and>
           uint l + k < 2 ^ 63 \<and> uint t + k < 2 ^ 64"
  show "?A \<longleftrightarrow> ?B"
  proof (cases "ref_totalJobTries c")
    case None
    have "IncrementJobTries h c jobId delta = Inl NilMapWrite"
      by (rule IncrementJobTries_pos_nil_total [OF pos None])
    then show ?thesis using None by simp
  next
    case (Some a)
    note T = this
    have t: "t = tries_at (st_tries h a) jobId"
      using assms(3) T by (simp add: chain_of_tries tries_of_def)
    show ?thesis
    proof (cases "ref_latestRunJobTries c")
      case None
      obtain p where "IncrementJobTries h c jobId delta = Inl p"
        using IncrementJobTries_nil_latest [OF None] by blast
      then show ?thesis using None by simp
    next
      case (Some b)
      note L = this
      have l: "l = tries_at (st_tries h b) jobId"
        using assms(2) L by (simp add: chain_of_tries tries_of_def)
      show ?thesis
      proof (cases "a = b")
        case True
        have L': "ref_latestRunJobTries c = Some a" using L True by simp
        note res = IncrementJobTries_pos_one_map [OF pos T L', of h jobId]
        have "\<not> ?A"
        proof
          assume ?A
          then obtain h' where h': "IncrementJobTries h c jobId delta = Inr h'"
            and u: "uint (tries_at (totalJobTries (chain_of h' c)) jobId) = uint t + k"
            by blast
          from h' res have "h' = h\<lparr>st_tries := (st_tries h)
                   (a := (st_tries h a)(jobId \<mapsto> t + delta + delta))\<rparr>"
            unfolding t by (simp split: if_splits)
          then have "tries_at (totalJobTries (chain_of h' c)) jobId = t + delta + delta"
            using T by (simp add: chain_of_tries tries_of_def tries_at_upd)
          with u have "uint (t + delta + delta) = uint t + sint delta"
            using assms(1) by simp
          then have "word_of_int (uint (t + delta + delta)) = (word_of_int (uint t + sint delta) :: 64 word)"
            by simp
          then have "t + delta + delta = t + delta"
            unfolding go_add_eq [of t delta, symmetric] by simp
          then have "delta = 0" by simp
          then show False using pos by simp
        qed
        then show ?thesis using T L True by simp
      next
        case False
        note res = IncrementJobTries_pos_distinct [OF pos T L False, of h jobId]
        have t0: "0 \<le> uint t + sint delta" using pos uint_bounds(1) [of t] by linarith
        have l0: "0 \<le> uint l + sint delta" using pos uint_bounds(1) [of l] by linarith
        have "?A \<longleftrightarrow> \<not> sint (l + delta) < 0 \<and> uint (t + delta) = uint t + k \<and>
                 uint (l + delta) = uint l + k"
          unfolding res l [symmetric] t [symmetric] using T L False
          by (auto simp: chain_of_tries tries_of_def tries_at_upd)
        also have "\<dots> \<longleftrightarrow> uint (l + delta) < 2 ^ 63 \<and> uint t + k < 2 ^ 64 \<and>
                 uint (l + delta) = uint l + k"
          using go_add_uint_iff [OF t0] assms(1) by (simp add: sint_nonneg_iff)
        also have "\<dots> \<longleftrightarrow> uint l + k < 2 ^ 63 \<and> uint t + k < 2 ^ 64"
        proof -
          have "uint l + k < 2 ^ 63 \<Longrightarrow> uint (l + delta) = uint l + k"
          proof -
            assume "uint l + k < 2 ^ 63"
            then have "uint l + sint delta < 2 ^ 64" using assms(1) by simp
            from go_add_uint [OF l0 this] show ?thesis using assms(1) by simp
          qed
          then show ?thesis by auto
        qed
        finally show ?thesis using T L False by simp
      qed
    qed
  qed
next
  assume kn: "k \<le> 0 \<and> - k \<le> uint l"
  have npos: "\<not> 0 < sint delta" using assms(1) kn by simp
  let ?A = "\<exists>h'. IncrementJobTries h c jobId delta = Inr h' \<and>
             tries_at (totalJobTries (chain_of h' c)) jobId = t \<and>
             uint (tries_at (latestRunJobTries (chain_of h' c)) jobId) = uint l - (- k)"
  let ?B = "ref_latestRunJobTries c \<noteq> None \<and> uint l - (- k) < 2 ^ 63 \<and>
           (k = 0 \<or> ref_totalJobTries c \<noteq> ref_latestRunJobTries c)"
  show "?A \<longleftrightarrow> ?B"
  proof (cases "ref_latestRunJobTries c")
    case None
    obtain p where "IncrementJobTries h c jobId delta = Inl p"
      using IncrementJobTries_nil_latest [OF None] by blast
    then show ?thesis using None by simp
  next
    case (Some b)
    note L = this
    have l: "l = tries_at (st_tries h b) jobId"
      using assms(2) L by (simp add: chain_of_tries tries_of_def)
    note res = IncrementJobTries_nonpos [OF npos L, of h jobId]
    have l0: "0 \<le> uint l + sint delta" using kn assms(1) by linarith
    have "uint l + sint delta \<le> uint l" using npos by simp
    then have l1: "uint l + sint delta < 2 ^ 64" using uint_bounds(2) [of l] by simp
    have ul: "uint (l + delta) = uint l + k"
      using go_add_uint [OF l0 l1] assms(1) by simp
    have k0: "k = 0 \<longleftrightarrow> delta = 0"
      using assms(1) by (metis signed_0 signed_word_eqI)
    show ?thesis
    proof (cases "ref_totalJobTries c = Some b")
      case True
      have tl: "t = l" using assms(3) True l by (simp add: chain_of_tries tries_of_def)
      have "?A \<longleftrightarrow> \<not> sint (l + delta) < 0 \<and> l + delta = l"
        unfolding res l [symmetric] using L True ul tl
        by (auto simp: chain_of_tries tries_of_def tries_at_upd)
      also have "\<dots> \<longleftrightarrow> uint l + k < 2 ^ 63 \<and> k = 0"
        using ul k0 by (simp add: sint_nonneg_iff)
      finally show ?thesis using L True by auto
    next
      case False
      have tt: "tries_at (tries_of (h\<lparr>st_tries := (st_tries h)
                   (b := (st_tries h b)(jobId \<mapsto> l + delta))\<rparr>) (ref_totalJobTries c)) jobId = t"
        using False assms(3) by (simp add: chain_of_tries tries_of_upd)
      have "?A \<longleftrightarrow> \<not> sint (l + delta) < 0"
        unfolding res l [symmetric] using L ul tt
        by (auto simp: chain_of_tries tries_of_upd tries_at_upd)
      also have "\<dots> \<longleftrightarrow> uint l + k < 2 ^ 63"
        using ul by (simp add: sint_nonneg_iff)
      finally show ?thesis using L False by auto
    qed
  qed
qed

theorem IncrementJobTries_effect_witness:
  "(\<exists>h'. IncrementJobTries (retry_store 0 1 1) retry_ref ''job2'' 2 = Inr h' \<and>
      uint (tries_at (totalJobTries (chain_of h' retry_ref)) ''job2'') = 3 \<and>
      uint (tries_at (latestRunJobTries (chain_of h' retry_ref)) ''job2'') = 3) \<and>
   (\<exists>h'. IncrementJobTries (retry_store 0 1 1) retry_ref ''job2'' (- 1) = Inr h' \<and>
      tries_at (totalJobTries (chain_of h' retry_ref)) ''job2'' = 1 \<and>
      uint (tries_at (latestRunJobTries (chain_of h' retry_ref)) ''job2'') = 0) \<and>
   \<not> (\<exists>h'. IncrementJobTries (retry_store 0 1 1) one_map_ref ''job2'' 2 = Inr h' \<and>
      uint (tries_at (totalJobTries (chain_of h' one_map_ref)) ''job2'') = 3 \<and>
      uint (tries_at (latestRunJobTries (chain_of h' one_map_ref)) ''job2'') = 3)"
proof -
  have t: "tries_at (latestRunJobTries (chain_of (retry_store 0 1 1) retry_ref)) ''job2'' = 1"
    "tries_at (totalJobTries (chain_of (retry_store 0 1 1) retry_ref)) ''job2'' = 1"
    by (simp_all add: retry_store_chain retry_chain_def tries_at_def)
  have o: "tries_at (latestRunJobTries (chain_of (retry_store 0 1 1) one_map_ref)) ''job2'' = 1"
    "tries_at (totalJobTries (chain_of (retry_store 0 1 1) one_map_ref)) ''job2'' = 1"
    by (simp_all add: chain_of_def tries_of_def one_map_ref_def retry_store_def tries_at_def)
  have s2: "sint (2 :: go_int) = 2" by simp
  have s1: "sint (- 1 :: go_int) = - 1" by simp
  have r: "ref_totalJobTries retry_ref = Some 3" "ref_latestRunJobTries retry_ref = Some 2"
    "ref_totalJobTries one_map_ref = Some 2" "ref_latestRunJobTries one_map_ref = Some 2"
    by (simp_all add: retry_ref_def one_map_ref_def)
  show ?thesis
    using IncrementJobTries_effect [OF s2 t]
      IncrementJobTries_effect [OF s1 t]
      IncrementJobTries_effect [OF s2 o]
    by (simp add: r)
qed

text \<open>
  Two of the three increment methods do panic when the sum of the counter and the delta
  is negative.
\<close>

lemma IncrementJobTries_negative_panics:
  assumes "uint (tries_at (latestRunJobTries (chain_of h c)) jobId) + sint delta < 0"
  shows "IncrementJobTries h c jobId delta = Inl (NegativeJobTries jobId)"
proof -
  have "0 \<le> uint (tries_at (latestRunJobTries (chain_of h c)) jobId)" by simp
  with assms have "\<not> 0 < sint delta" by linarith
  then show ?thesis
    using go_add_negative [OF assms]
    by (simp add: IncrementJobTries_def Let_def chain_of_tries)
qed

lemma IncrementFinishedJobs_negative_panics:
  assumes "uint (jc_FinishedJobs (jobChain c)) + sint delta < 0"
  shows "IncrementFinishedJobs c delta = Inl NegativeFinishedJobs"
  using go_add_negative [OF assms] by (simp add: IncrementFinishedJobs_def Let_def)

text \<open>
  Claim C7. An increment whose delta would drive the counter below zero is fatal: so it
  is for \<open>IncrementJobTries\<close> and \<open>IncrementFinishedJobs\<close> (the two lemmas above).
  The code of \<open>IncrementSequenceTries\<close> has no such check: on a sequence with no tries,
  a delta of \<open>-1\<close> is not fatal; the call returns, the counter wraps to the largest
  \<open>uint\<close>, and the sequence can no longer be retried.
\<close>

theorem IncrementSequenceTries_negative_wraps:
  "sint (- 1 :: go_int) = - 1 \<and>
   SequenceTries (chain_of (retry_store 0 0 0) retry_ref) ''job2'' = 0 \<and>
   IncrementSequenceTries (retry_store 0 0 0) retry_ref ''job2'' (- 1)
     = Inr (retry_store 18446744073709551615 0 0) \<and>
   SequenceTries (chain_of (retry_store 18446744073709551615 0 0) retry_ref) ''job2''
     = 18446744073709551615 \<and>
   \<not> CanRetrySequence (chain_of (retry_store 18446744073709551615 0 0) retry_ref) ''job2''"
proof -
  have m: "\<not> (- 1 :: uint) \<le> 2" by (simp add: word_le_def unsigned_minus_1_eq_mask mask_eq_exp_minus_1)
  have "(18446744073709551615 :: uint) + 1 = 0"
    by (simp add: word_eq_iff_unsigned [where ?'a = nat])
  then have m1: "(18446744073709551615 :: uint) = - 1"
    by (simp only: eq_neg_iff_add_eq_0)
  have s: "IncrementSequenceTries (retry_store 0 0 0) retry_ref ''job2'' (- 1)
     = Inr (retry_store (- 1) 0 0)"
  proof -
    have j: "job_SequenceId (job_at (jc_Jobs (st_jobChains (retry_store 0 0 0) (ref_jobChain retry_ref))) ''job2'') = ''job1''"
      by (simp add: retry_store_def retry_chain_def retry_job_def job_at_def)
    have rd: "tries_at (tries_of (retry_store 0 0 0) (ref_sequenceTries retry_ref)) ''job1'' = 0"
      "ref_sequenceTries retry_ref = Some 1"
      "(st_tries (retry_store 0 0 0) (Suc 0))(''job1'' \<mapsto> - 1) = [''job1'' \<mapsto> - 1]"
      by (simp_all add: retry_store_def retry_ref_def tries_of_def tries_at_def)
    show ?thesis
      unfolding IncrementSequenceTries_def Let_def j rd(1)
      by (simp add: put_tries_def rd retry_store_upd)
  qed
  show ?thesis
    using s unfolding m1
    by (simp add: retry_store_chain SequenceTries_def CanRetrySequence_def
        SequenceStartJob_def retry_chain_def retry_job_def job_at_def tries_at_def Let_def m)
qed

section \<open>Properties of the find command\<close>

lemma length_SplitN_eq_2: "length (SplitN_eq_2 s) = 2 \<longleftrightarrow> CHR ''='' \<in> set s"
  by (simp add: SplitN_eq_2_def)

lemma bool_at_validFilters: "bool_at validFilters f \<longleftrightarrow> f \<in> filter_names"
  by (simp add: bool_at_def validFilters_def filter_names_def)

lemma Prepare_args_error_kind:
  "Prepare_args args filters = Inl e \<Longrightarrow> is_args_error e"
  by (induction args arbitrary: filters) (auto simp: Let_def split: if_splits)

lemma Prepare_args_ok_iff:
  "(\<exists>fs. Prepare_args args filters = Inr fs) \<longleftrightarrow>
     (\<forall>a \<in> set args. length (SplitN_eq_2 a) = 2 \<and> filter_name a \<in> filter_names \<and>
        filters (filter_name a) = None) \<and>
     distinct (map filter_name args)"
proof (induction args arbitrary: filters)
  case Nil
  show ?case by simp
next
  case (Cons a args)
  have step: "Prepare_args (a # args) filters =
     (if length (SplitN_eq_2 a) \<noteq> 2 then Inl (InvalidCommandArg a (length (SplitN_eq_2 a)))
      else if filter_name a \<notin> filter_names then Inl (InvalidFilter (filter_name a))
      else if filters (filter_name a) \<noteq> None
        then Inl (FilterSpecifiedMultipleTimes (filter_name a))
      else Prepare_args args (filters(filter_name a \<mapsto> SplitN_eq_2 a ! 1)))"
    by (simp add: Let_def bool_at_validFilters filter_name_def)
  show ?case
    unfolding step by (auto simp: Cons.IH image_iff)
qed

lemma Prepare_states_error_kind:
  "Prepare_states sv names states = Inl e \<Longrightarrow> \<not> is_args_error e"
  by (induction names arbitrary: states) (auto split: option.splits)

lemma Prepare_time_error_kind:
  "Prepare_time env s = Inl e \<Longrightarrow> \<not> is_args_error e"
  by (auto simp: Prepare_time_def split: if_splits option.splits)

lemma Prepare_later_error_kind:
  assumes "Prepare_args args Map.empty = Inr fs" and "Prepare env args = Inl e"
  shows "\<not> is_args_error e"
  using assms(2) unfolding Prepare_def assms(1)
  by (auto split: sum.splits if_splits option.splits
      dest: Prepare_states_error_kind Prepare_time_error_kind)

lemma repeated_iff:
  "(\<exists>i j. i < j \<and> j < length args \<and> filter_name (args ! j) = filter_name (args ! i)) \<longleftrightarrow>
   \<not> distinct (map filter_name args)"
proof
  assume "\<exists>i j. i < j \<and> j < length args \<and> filter_name (args ! j) = filter_name (args ! i)"
  then obtain i j where "i < j" "j < length args"
    "filter_name (args ! j) = filter_name (args ! i)" by blast
  then show "\<not> distinct (map filter_name args)"
    by (auto simp: distinct_conv_nth) (metis less_trans nat_neq_iff)
next
  assume "\<not> distinct (map filter_name args)"
  then obtain i j where ij: "i < length args" "j < length args" "i \<noteq> j"
    "filter_name (args ! i) = filter_name (args ! j)"
    by (auto simp: distinct_conv_nth)
  show "\<exists>i j. i < j \<and> j < length args \<and> filter_name (args ! j) = filter_name (args ! i)"
  proof (cases "i < j")
    case True
    then show ?thesis using ij by metis
  next
    case False
    then have "j < i" using ij(3) by simp
    then show ?thesis using ij by metis
  qed
qed

text \<open>
  Claim C9. For every list of arguments of the find command, \<open>Prepare\<close> returns one of
  the three errors of its first loop if and only if some argument does not split on
  \<open>=\<close> into exactly two parts, or names a filter outside type, states, user, since,
  until, limit, offset, or repeats the filter name of an earlier argument. So each of the
  three conditions makes \<open>Prepare\<close> return an error, and without them no such error is
  returned (the later steps may still reject a value).
\<close>

theorem Prepare_args_errors:
  "(\<exists>e. Prepare env args = Inl e \<and> is_args_error e) \<longleftrightarrow>
     (\<exists>a \<in> set args. length (SplitN_eq_2 a) \<noteq> 2) \<or>
     (\<exists>a \<in> set args. filter_name a \<notin> filter_names) \<or>
     (\<exists>i j. i < j \<and> j < length args \<and> filter_name (args ! j) = filter_name (args ! i))"
proof (cases "Prepare_args args Map.empty")
  case (Inl e)
  then have "Prepare env args = Inl e" by (simp add: Prepare_def)
  moreover have "is_args_error e" using Inl by (rule Prepare_args_error_kind)
  moreover have "\<not> (\<exists>fs. Prepare_args args Map.empty = Inr fs)" using Inl by simp
  ultimately show ?thesis
    unfolding repeated_iff Prepare_args_ok_iff by auto
next
  case (Inr fs)
  then have "\<exists>fs. Prepare_args args Map.empty = Inr fs" by blast
  then have "\<not> ((\<exists>a \<in> set args. length (SplitN_eq_2 a) \<noteq> 2) \<or>
     (\<exists>a \<in> set args. filter_name a \<notin> filter_names) \<or> \<not> distinct (map filter_name args))"
    unfolding Prepare_args_ok_iff by auto
  moreover have "\<not> (\<exists>e. Prepare env args = Inl e \<and> is_args_error e)"
    using Prepare_later_error_kind [OF Inr] by blast
  ultimately show ?thesis unfolding repeated_iff by blast
qed

theorem Prepare_args_errors_witness:
  "(\<exists>e. Prepare no_env [''type=a'', ''user=b'', ''type=c''] = Inl e \<and> is_args_error e) \<and>
   (\<exists>e. Prepare no_env [''limit''] = Inl e \<and> is_args_error e) \<and>
   (\<exists>e. Prepare no_env [''color=red''] = Inl e \<and> is_args_error e) \<and>
   \<not> (\<exists>e. Prepare no_env [''type=a'', ''limit=x''] = Inl e \<and> is_args_error e)"
proof -
  have f: "filter_name ''type=a'' = ''type''" "filter_name ''user=b'' = ''user''"
    "filter_name ''type=c'' = ''type''" "filter_name ''color=red'' = ''color''"
    "filter_name ''limit=x'' = ''limit''"
    by (simp_all add: filter_name_def SplitN_eq_2_def)
  have l: "length (SplitN_eq_2 ''limit'') \<noteq> 2" "length (SplitN_eq_2 ''type=a'') = 2"
    "length (SplitN_eq_2 ''limit=x'') = 2"
    by (simp_all add: SplitN_eq_2_def)
  have n: "''color'' \<notin> filter_names" "''type'' \<in> filter_names" "''limit'' \<in> filter_names"
    by (simp_all add: filter_names_def)
  have r: "\<exists>i j. i < j \<and> j < length [''type=a'', ''user=b'', ''type=c''] \<and>
      filter_name ([''type=a'', ''user=b'', ''type=c''] ! j)
        = filter_name ([''type=a'', ''user=b'', ''type=c''] ! i)"
    by (rule exI [of _ 0], rule exI [of _ 2]) (simp add: f)
  have nr: "\<not> (\<exists>i j. i < j \<and> j < length [''type=a'', ''limit=x''] \<and>
      filter_name ([''type=a'', ''limit=x''] ! j) = filter_name ([''type=a'', ''limit=x''] ! i))"
    unfolding repeated_iff by (simp add: f)
  have 1: "\<exists>e. Prepare no_env [''type=a'', ''user=b'', ''type=c''] = Inl e \<and> is_args_error e"
    unfolding Prepare_args_errors using r by blast
  have 2: "\<exists>e. Prepare no_env [''limit''] = Inl e \<and> is_args_error e"
    unfolding Prepare_args_errors using l by simp
  have 3: "\<exists>e. Prepare no_env [''color=red''] = Inl e \<and> is_args_error e"
    unfolding Prepare_args_errors using n f by simp
  have 4: "\<not> (\<exists>e. Prepare no_env [''type=a'', ''limit=x''] = Inl e \<and> is_args_error e)"
    unfolding Prepare_args_errors using nr l n f by simp
  show ?thesis using 1 2 3 4 by blast
qed


section \<open>Properties of construction and suspension\<close>

lemma same_but_Data_refl: "same_but_Data j j"
  by (simp add: same_but_Data_def)

lemma same_but_Data_fields:
  assumes "same_but_Data j j'"
  shows "job_Id j' = job_Id j" "job_State j' = job_State j" "job_Retry j' = job_Retry j"
    "job_SequenceId j' = job_SequenceId j" "job_SequenceRetry j' = job_SequenceRetry j"
proof -
  have e: "j' = j\<lparr>job_Data := job_Data j'\<rparr>" using assms by (simp add: same_but_Data_def)
  show "job_Id j' = job_Id j" by (subst e) simp
  show "job_State j' = job_State j" by (subst e) simp
  show "job_Retry j' = job_Retry j" by (subst e) simp
  show "job_SequenceId j' = job_SequenceId j" by (subst e) simp
  show "job_SequenceRetry j' = job_SequenceRetry j" by (subst e) simp
qed

lemma same_but_Data_trans:
  "same_but_Data a b \<Longrightarrow> same_but_Data b c \<Longrightarrow> same_but_Data a c"
  by (cases a, cases b, cases c) (simp add: same_but_Data_def)

lemma NewChain_loop_rel:
  assumes "\<forall>k. rel_option same_but_Data (jobs0 k) (jobs k)"
  shows "\<forall>k. rel_option same_but_Data (jobs0 k) (NewChain_loop jobs ks k)"
  using assms
proof (induction ks arbitrary: jobs)
  case Nil
  then show ?case by simp
next
  case (Cons jobName ks)
  show ?case
  proof (cases "jobs jobName")
    case None
    then show ?thesis using Cons by simp
  next
    case (Some job)
    let ?job' = "if job_Data job = None then job\<lparr>job_Data := Some Map.empty\<rparr> else job"
    have jj: "same_but_Data job ?job'" by (simp add: same_but_Data_def)
    have "\<forall>k. rel_option same_but_Data (jobs0 k) ((jobs(jobName \<mapsto> ?job')) k)"
    proof
      fix k
      show "rel_option same_but_Data (jobs0 k) ((jobs(jobName \<mapsto> ?job')) k)"
      proof (cases "k = jobName")
        case True
        from Cons.prems have "rel_option same_but_Data (jobs0 jobName) (jobs jobName)" by blast
        then obtain j0 where j0: "jobs0 jobName = Some j0" "same_but_Data j0 job"
          using Some by (cases "jobs0 jobName") auto
        then have "same_but_Data j0 ?job'" using jj same_but_Data_trans by blast
        then show ?thesis using True j0 by simp
      next
        case False
        then show ?thesis using Cons.prems by simp
      qed
    qed
    then have "\<forall>k. rel_option same_but_Data (jobs0 k) (NewChain_loop (jobs(jobName \<mapsto> ?job')) ks k)"
      by (rule Cons.IH)
    then show ?thesis using Some by (simp add: Let_def)
  qed
qed

lemma NewChain_loop_same_but_Data:
  "\<forall>k. rel_option same_but_Data (jobs k) (NewChain_loop jobs ks k)"
  by (rule NewChain_loop_rel) (simp add: option.rel_refl same_but_Data_refl)

lemma NewChain_loop_id:
  assumes "\<forall>k job. jobs k = Some job \<longrightarrow> job_Data job \<noteq> None"
  shows "NewChain_loop jobs ks = jobs"
  using assms
proof (induction ks)
  case Nil
  show ?case by simp
next
  case (Cons jobName ks)
  show ?case
  proof (cases "jobs jobName")
    case None
    then show ?thesis using Cons by simp
  next
    case (Some job)
    then have d: "job_Data job \<noteq> None" using Cons.prems by blast
    have u: "jobs(jobName \<mapsto> job) = jobs" using Some by (simp add: fun_upd_idem)
    have "NewChain_loop jobs (jobName # ks) = NewChain_loop (jobs(jobName \<mapsto> job)) ks"
      using Some d by (auto simp: Let_def)
    also have "\<dots> = jobs" unfolding u using Cons by simp
    finally show ?thesis .
  qed
qed

lemma NewChain_loop_materialized:
  assumes "set ks = dom jobs" and "NewChain_loop jobs ks k = Some job"
  shows "job_Data job \<noteq> None"
proof -
  have gen: "\<And>jobs. k \<in> set ks \<or> (\<forall>j. jobs k = Some j \<longrightarrow> job_Data j \<noteq> None) \<Longrightarrow>
      NewChain_loop jobs ks k = Some job \<Longrightarrow> job_Data job \<noteq> None"
  proof (induction ks)
    case Nil
    then show ?case by simp
  next
    case (Cons jobName ks)
    show ?case
    proof (cases "jobs jobName")
      case None
      then have "NewChain_loop jobs ks k = Some job" using Cons.prems(2) by simp
      moreover have "k \<in> set ks \<or> (\<forall>j. jobs k = Some j \<longrightarrow> job_Data j \<noteq> None)"
        using Cons.prems(1) None by auto
      ultimately show ?thesis by (rule Cons.IH [rotated])
    next
      case (Some j)
      let ?j' = "if job_Data j = None then j\<lparr>job_Data := Some Map.empty\<rparr> else j"
      have "NewChain_loop (jobs(jobName \<mapsto> ?j')) ks k = Some job"
        using Cons.prems(2) Some by (simp add: Let_def)
      moreover have "k \<in> set ks \<or> (\<forall>ja. (jobs(jobName \<mapsto> ?j')) k = Some ja \<longrightarrow> job_Data ja \<noteq> None)"
        using Cons.prems(1) by auto
      ultimately show ?thesis by (rule Cons.IH [rotated])
    qed
  qed
  show ?thesis
  proof (cases "k \<in> set ks")
    case True
    then show ?thesis using gen assms(2) by blast
  next
    case False
    then have "jobs k = None" using assms(1) by auto
    then have "\<forall>j. jobs k = Some j \<longrightarrow> job_Data j \<noteq> None" by simp
    then show ?thesis using gen assms(2) by blast
  qed
qed

lemma csd_jobs:
  assumes "chains_same_but_Data c c'"
  shows "rel_option same_but_Data (jc_Jobs (jobChain c) k) (jc_Jobs (jobChain c') k)"
  using assms by (simp add: chains_same_but_Data_def)

lemma csd_job_at:
  assumes "chains_same_but_Data c c'"
  shows "same_but_Data (job_at (jc_Jobs (jobChain c)) k) (job_at (jc_Jobs (jobChain c')) k)"
  using csd_jobs [OF assms, of k]
  by (cases "jc_Jobs (jobChain c) k"; cases "jc_Jobs (jobChain c') k")
     (simp_all add: job_at_def same_but_Data_refl)

lemma csd_rest:
  assumes "chains_same_but_Data c c'"
  shows "jc_RequestId (jobChain c') = jc_RequestId (jobChain c)"
    "jc_AdjacencyList (jobChain c') = jc_AdjacencyList (jobChain c)"
    "jc_State (jobChain c') = jc_State (jobChain c)"
    "jc_FinishedJobs (jobChain c') = jc_FinishedJobs (jobChain c)"
    "sequenceTries c' = sequenceTries c"
    "latestRunJobTries c' = latestRunJobTries c"
    "totalJobTries c' = totalJobTries c"
  using assms by (simp_all add: chains_same_but_Data_def)

lemma csd_SequenceStartJob:
  assumes "chains_same_but_Data c c'"
  shows "same_but_Data (SequenceStartJob c jobId) (SequenceStartJob c' jobId)"
  unfolding SequenceStartJob_def
  using csd_job_at [OF assms] same_but_Data_fields(4) [OF csd_job_at [OF assms, of jobId]]
  by simp

lemma csd_CanRetrySequence:
  assumes "chains_same_but_Data c c'"
  shows "CanRetrySequence c' jobId = CanRetrySequence c jobId"
    "canRetrySequence c' jobId = canRetrySequence c jobId"
  using same_but_Data_fields [OF csd_SequenceStartJob [OF assms, of jobId]] csd_rest [OF assms]
  by (simp_all add: CanRetrySequence_def canRetrySequence_def Let_def sequenceStartJob_def
      SequenceStartJob_def)

lemma csd_scalars:
  assumes "chains_same_but_Data c c'"
  shows "RequestId c' = RequestId c" "State c' = State c" "FinishedJobs c' = FinishedJobs c"
    "JobState c' jobId = JobState c jobId" "JobTries c' jobId = JobTries c jobId"
    "SequenceTries c' jobId = SequenceTries c jobId"
    "IsSequenceStartJob c' jobId = IsSequenceStartJob c jobId"
  using same_but_Data_fields [OF csd_job_at [OF assms, of jobId]] csd_rest [OF assms]
  by (simp_all add: RequestId_def State_def FinishedJobs_def JobState_def JobTries_def
      SequenceTries_def IsSequenceStartJob_def Let_def)

lemma csd_previousJobs_loop:
  assumes "chains_same_but_Data c c'" and "list_all2 same_but_Data acc acc'"
  shows "list_all2 same_but_Data (previousJobs_loop (jobChain c) aks jobId acc)
           (previousJobs_loop (jobChain c') aks jobId acc')"
  using assms(2)
proof (induction aks arbitrary: acc acc')
  case Nil
  then show ?case by simp
next
  case (Cons curJob aks)
  have adj: "jc_AdjacencyList (jobChain c') curJob = jc_AdjacencyList (jobChain c) curJob"
    using csd_rest(2) [OF assms(1)] by simp
  show ?case
  proof (cases "jc_AdjacencyList (jobChain c) curJob")
    case None
    then show ?thesis using adj Cons by simp
  next
    case (Some nextJobs)
    show ?thesis
    proof (cases "contains nextJobs jobId")
      case False
      then show ?thesis using adj Some Cons by simp
    next
      case True
      from csd_jobs [OF assms(1), of curJob] show ?thesis
      proof (cases rule: option.rel_cases)
        case None
        then show ?thesis using adj Some True Cons by simp
      next
        case (Some v v')
        then have "list_all2 same_but_Data (acc @ [v]) (acc' @ [v'])"
          using Cons.prems by (simp add: list_all2_appendI)
        then have "list_all2 same_but_Data (previousJobs_loop (jobChain c) aks jobId (acc @ [v]))
           (previousJobs_loop (jobChain c') aks jobId (acc' @ [v']))"
          by (rule Cons.IH)
        then show ?thesis using adj \<open>jc_AdjacencyList (jobChain c) curJob = Some nextJobs\<close> True Some
          by simp
      qed
    qed
  qed
qed

lemma all_complete_same_but_Data:
  "list_all2 same_but_Data js js' \<Longrightarrow> all_complete js' = all_complete js"
  by (induction js js' rule: list_all2_induct) (simp_all add: same_but_Data_fields)

lemma csd_isRunnable:
  assumes "chains_same_but_Data c c'"
  shows "isRunnable c' aks jobId = isRunnable c aks jobId"
proof -
  have "list_all2 same_but_Data (previousJobs c aks jobId) (previousJobs c' aks jobId)"
    unfolding previousJobs_def by (rule csd_previousJobs_loop [OF assms]) simp
  then have "all_complete (previousJobs c' aks jobId) = all_complete (previousJobs c aks jobId)"
    by (rule all_complete_same_but_Data)
  then show ?thesis
    using same_but_Data_fields(2) [OF csd_job_at [OF assms, of jobId]]
    by (simp add: isRunnable_def Let_def)
qed

lemma csd_IsDoneRunning_loop:
  assumes "chains_same_but_Data c c'"
  shows "IsDoneRunning_loop c' aks ks complete = IsDoneRunning_loop c aks ks complete"
proof (induction ks arbitrary: complete)
  case Nil
  show ?case by simp
next
  case (Cons k ks)
  from csd_jobs [OF assms, of k] show ?case
  proof (cases rule: option.rel_cases)
    case None
    then show ?thesis by (simp add: Cons.IH)
  next
    case (Some job job')
    then show ?thesis
      using same_but_Data_fields [OF Some(3)]
      by (simp add: Cons.IH csd_isRunnable [OF assms] csd_CanRetrySequence [OF assms])
  qed
qed

lemma csd_FailedJobs_loop:
  assumes "chains_same_but_Data c c'"
  shows "FailedJobs_loop c' ks n = FailedJobs_loop c ks n"
proof (induction ks arbitrary: n)
  case Nil
  show ?case by simp
next
  case (Cons k ks)
  from csd_jobs [OF assms, of k] show ?case
  proof (cases rule: option.rel_cases)
    case None
    then show ?thesis by (simp add: Cons.IH)
  next
    case (Some job job')
    then show ?thesis
      using same_but_Data_fields [OF Some(3)] by (simp add: Cons.IH)
  qed
qed

lemma csd_NextJobs_loop:
  assumes "chains_same_but_Data c c'" and "list_all2 same_but_Data acc acc'"
  shows "list_all2 same_but_Data (NextJobs_loop (jobChain c) ids acc)
           (NextJobs_loop (jobChain c') ids acc')"
  using assms(2)
proof (induction ids arbitrary: acc acc')
  case Nil
  then show ?case by simp
next
  case (Cons i ids)
  from csd_jobs [OF assms(1), of i] show ?case
  proof (cases rule: option.rel_cases)
    case None
    then show ?thesis using Cons by simp
  next
    case (Some v v')
    then have "list_all2 same_but_Data (acc @ [v]) (acc' @ [v'])"
      using Cons.prems by (simp add: list_all2_appendI)
    then have "list_all2 same_but_Data (NextJobs_loop (jobChain c) ids (acc @ [v]))
           (NextJobs_loop (jobChain c') ids (acc' @ [v']))"
      by (rule Cons.IH)
    then show ?thesis using Some by simp
  qed
qed

lemma csd_NextJobs:
  assumes "chains_same_but_Data c c'"
  shows "list_all2 same_but_Data (NextJobs c jobId) (NextJobs c' jobId)"
proof (cases "jc_AdjacencyList (jobChain c) jobId")
  case None
  then show ?thesis using csd_rest(2) [OF assms] by (simp add: NextJobs_def)
next
  case (Some ids)
  have "list_all2 same_but_Data (NextJobs_loop (jobChain c) ids []) (NextJobs_loop (jobChain c') ids [])"
    by (rule csd_NextJobs_loop [OF assms]) simp
  then show ?thesis using Some csd_rest(2) [OF assms] by (simp add: NextJobs_def)
qed

lemma csd_RunnableJobs_loop:
  assumes "chains_same_but_Data c c'" and "list_all2 same_but_Data acc acc'"
  shows "list_all2 same_but_Data (RunnableJobs_loop c aks ks acc) (RunnableJobs_loop c' aks ks acc')"
  using assms(2)
proof (induction ks arbitrary: acc acc')
  case Nil
  then show ?case by simp
next
  case (Cons k ks)
  have r: "IsRunnable c' aks k = IsRunnable c aks k"
    by (simp add: IsRunnable_def csd_isRunnable [OF assms(1)])
  from csd_jobs [OF assms(1), of k] show ?case
  proof (cases rule: option.rel_cases)
    case None
    then show ?thesis using Cons by simp
  next
    case (Some v v')
    show ?thesis
    proof (cases "IsRunnable c aks k")
      case False
      then show ?thesis using Some r Cons by simp
    next
      case True
      have "list_all2 same_but_Data (acc @ [v]) (acc' @ [v'])"
        using Cons.prems Some by (simp add: list_all2_appendI)
      then have "list_all2 same_but_Data (RunnableJobs_loop c aks ks (acc @ [v]))
           (RunnableJobs_loop c' aks ks (acc' @ [v']))"
        by (rule Cons.IH)
      then show ?thesis using Some r True by simp
    qed
  qed
qed

lemma tries_of_jobChains: "tries_of (h\<lparr>st_jobChains := f\<rparr>) r = tries_of h r"
  by (simp add: tries_of_def split: option.splits)

lemma NewChain_same_but_Data:
  assumes "NewChain h ks (ref_jobChain c) (ref_sequenceTries c) (ref_totalJobTries c)
             (ref_latestRunJobTries c) = (h', c')"
  shows "c' = c" and "chains_same_but_Data (chain_of h c) (chain_of h' c')"
proof -
  let ?jobs = "NewChain_loop (jc_Jobs (st_jobChains h (ref_jobChain c))) ks"
  have h': "h' = h\<lparr>st_jobChains := (st_jobChains h)
      (ref_jobChain c := (st_jobChains h (ref_jobChain c))\<lparr>jc_Jobs := ?jobs\<rparr>)\<rparr>"
    and c': "c' = \<lparr>ref_jobChain = ref_jobChain c, ref_sequenceTries = ref_sequenceTries c,
               ref_latestRunJobTries = ref_latestRunJobTries c,
               ref_totalJobTries = ref_totalJobTries c\<rparr>"
    using assms by (simp_all add: NewChain_def Let_def)
  show "c' = c" unfolding c' by simp
  then show "chains_same_but_Data (chain_of h c) (chain_of h' c')"
    using NewChain_loop_same_but_Data [of "jc_Jobs (st_jobChains h (ref_jobChain c))" ks]
    by (simp add: chains_same_but_Data_def chain_of_def tries_of_jobChains h')
qed

lemma NewChain_same_store:
  assumes "NewChain h ks jc seqTries totTries latestTries = (h', c')"
    and "\<forall>k job. jc_Jobs (st_jobChains h jc) k = Some job \<longrightarrow> job_Data job \<noteq> None"
  shows "h' = h"
proof -
  have "NewChain_loop (jc_Jobs (st_jobChains h jc)) ks = jc_Jobs (st_jobChains h jc)"
    using assms(2) by (rule NewChain_loop_id)
  then show ?thesis using assms(1) by (simp add: NewChain_def Let_def)
qed

text \<open>
  Claim C8. For every chain \<open>c\<close>, the chain that \<open>NewChain\<close> builds from
  \<open>ToSuspended(c)\<close> agrees with \<open>c\<close> on every public accessor. The new chain holds
  the references \<open>c\<close> holds, so after the call (\<open>cur\<close>) the two give the same
  answers. Compared with \<open>c\<close> before the call (\<open>old\<close>), the answers are the same up
  to the \<open>Data\<close> that \<open>NewChain\<close> sets on jobs that had none; when every job of
  \<open>c\<close> has its \<open>Data\<close>, as after \<open>NewChain\<close>, the call changes nothing.
\<close>

theorem NewChain_ToSuspended:
  assumes "ToSuspended h c = s"
    and "NewChain h ks (sjc_JobChain s) (sjc_SequenceTries s) (sjc_TotalJobTries s)
           (sjc_LatestRunJobTries s) = (h', c')"
    and "new = chain_of h' c'" and "cur = chain_of h' c" and "old = chain_of h c"
  shows "c' = c \<and>
    (RequestId new = RequestId cur \<and> State new = State cur \<and>
     FinishedJobs new = FinishedJobs cur \<and>
     (\<forall>jks. FailedJobs new jks = FailedJobs cur jks) \<and>
     (\<forall>jobId. JobState new jobId = JobState cur jobId) \<and>
     (\<forall>jobId. JobTries new jobId = JobTries cur jobId) \<and>
     (\<forall>jobId. SequenceTries new jobId = SequenceTries cur jobId) \<and>
     (\<forall>jobId. NextJobs new jobId = NextJobs cur jobId) \<and>
     (\<forall>aks jobId. IsRunnable new aks jobId = IsRunnable cur aks jobId) \<and>
     (\<forall>jks aks. RunnableJobs new jks aks = RunnableJobs cur jks aks) \<and>
     (\<forall>jks aks. IsDoneRunning new jks aks = IsDoneRunning cur jks aks) \<and>
     (\<forall>jobId. CanRetrySequence new jobId = CanRetrySequence cur jobId) \<and>
     (\<forall>jobId. SequenceStartJob new jobId = SequenceStartJob cur jobId) \<and>
     (\<forall>jobId. IsSequenceStartJob new jobId = IsSequenceStartJob cur jobId)) \<and>
    (RequestId new = RequestId old \<and> State new = State old \<and>
     FinishedJobs new = FinishedJobs old \<and>
     (\<forall>jks. FailedJobs new jks = FailedJobs old jks) \<and>
     (\<forall>jobId. JobState new jobId = JobState old jobId) \<and>
     (\<forall>jobId. JobTries new jobId = JobTries old jobId) \<and>
     (\<forall>jobId. SequenceTries new jobId = SequenceTries old jobId) \<and>
     (\<forall>jobId. list_all2 same_but_Data (NextJobs old jobId) (NextJobs new jobId)) \<and>
     (\<forall>aks jobId. IsRunnable new aks jobId = IsRunnable old aks jobId) \<and>
     (\<forall>jks aks. list_all2 same_but_Data (RunnableJobs old jks aks) (RunnableJobs new jks aks)) \<and>
     (\<forall>jks aks. IsDoneRunning new jks aks = IsDoneRunning old jks aks) \<and>
     (\<forall>jobId. CanRetrySequence new jobId = CanRetrySequence old jobId) \<and>
     (\<forall>jobId. same_but_Data (SequenceStartJob old jobId) (SequenceStartJob new jobId)) \<and>
     (\<forall>jobId. IsSequenceStartJob new jobId = IsSequenceStartJob old jobId)) \<and>
    ((\<forall>k job. jc_Jobs (jobChain old) k = Some job \<longrightarrow> job_Data job \<noteq> None) \<longrightarrow>
       h' = h \<and> new = old)"
proof -
  have s: "sjc_JobChain s = ref_jobChain c" "sjc_SequenceTries s = ref_sequenceTries c"
    "sjc_TotalJobTries s = ref_totalJobTries c" "sjc_LatestRunJobTries s = ref_latestRunJobTries c"
    using assms(1) by (auto simp: ToSuspended_def)
  note n = assms(2) [unfolded s]
  have c: "c' = c" by (rule NewChain_same_but_Data(1) [OF n])
  have "chains_same_but_Data (chain_of h c) (chain_of h' c')"
    by (rule NewChain_same_but_Data(2) [OF n])
  then have r: "chains_same_but_Data old new" by (simp add: assms(3,5))
  have nc: "new = cur" by (simp add: assms(3,4) c)
  have part1: "RequestId new = RequestId cur \<and> State new = State cur \<and>
     FinishedJobs new = FinishedJobs cur \<and>
     (\<forall>jks. FailedJobs new jks = FailedJobs cur jks) \<and>
     (\<forall>jobId. JobState new jobId = JobState cur jobId) \<and>
     (\<forall>jobId. JobTries new jobId = JobTries cur jobId) \<and>
     (\<forall>jobId. SequenceTries new jobId = SequenceTries cur jobId) \<and>
     (\<forall>jobId. NextJobs new jobId = NextJobs cur jobId) \<and>
     (\<forall>aks jobId. IsRunnable new aks jobId = IsRunnable cur aks jobId) \<and>
     (\<forall>jks aks. RunnableJobs new jks aks = RunnableJobs cur jks aks) \<and>
     (\<forall>jks aks. IsDoneRunning new jks aks = IsDoneRunning cur jks aks) \<and>
     (\<forall>jobId. CanRetrySequence new jobId = CanRetrySequence cur jobId) \<and>
     (\<forall>jobId. SequenceStartJob new jobId = SequenceStartJob cur jobId) \<and>
     (\<forall>jobId. IsSequenceStartJob new jobId = IsSequenceStartJob cur jobId)"
    unfolding nc by simp
  have part2: "RequestId new = RequestId old \<and> State new = State old \<and>
     FinishedJobs new = FinishedJobs old \<and>
     (\<forall>jks. FailedJobs new jks = FailedJobs old jks) \<and>
     (\<forall>jobId. JobState new jobId = JobState old jobId) \<and>
     (\<forall>jobId. JobTries new jobId = JobTries old jobId) \<and>
     (\<forall>jobId. SequenceTries new jobId = SequenceTries old jobId) \<and>
     (\<forall>jobId. list_all2 same_but_Data (NextJobs old jobId) (NextJobs new jobId)) \<and>
     (\<forall>aks jobId. IsRunnable new aks jobId = IsRunnable old aks jobId) \<and>
     (\<forall>jks aks. list_all2 same_but_Data (RunnableJobs old jks aks) (RunnableJobs new jks aks)) \<and>
     (\<forall>jks aks. IsDoneRunning new jks aks = IsDoneRunning old jks aks) \<and>
     (\<forall>jobId. CanRetrySequence new jobId = CanRetrySequence old jobId) \<and>
     (\<forall>jobId. same_but_Data (SequenceStartJob old jobId) (SequenceStartJob new jobId)) \<and>
     (\<forall>jobId. IsSequenceStartJob new jobId = IsSequenceStartJob old jobId)"
    using csd_scalars [OF r] csd_FailedJobs_loop [OF r] csd_NextJobs [OF r]
      csd_isRunnable [OF r] csd_RunnableJobs_loop [OF r, of "[]" "[]"]
      csd_IsDoneRunning_loop [OF r] csd_CanRetrySequence(1) [OF r] csd_SequenceStartJob [OF r]
    by (simp add: FailedJobs_def IsRunnable_def RunnableJobs_def IsDoneRunning_def)
  have part3: "(\<forall>k job. jc_Jobs (jobChain old) k = Some job \<longrightarrow> job_Data job \<noteq> None) \<longrightarrow>
       h' = h \<and> new = old"
  proof
    assume "\<forall>k job. jc_Jobs (jobChain old) k = Some job \<longrightarrow> job_Data job \<noteq> None"
    then have "\<forall>k job. jc_Jobs (st_jobChains h (ref_jobChain c)) k = Some job \<longrightarrow> job_Data job \<noteq> None"
      by (simp add: assms(5) chain_of_def)
    then have "h' = h" by (rule NewChain_same_store [OF n])
    then show "h' = h \<and> new = old" by (simp add: assms(3,5) c)
  qed
  show ?thesis using c part1 part2 part3 by blast
qed

theorem NewChain_ToSuspended_witness:
  "snd (NewChain example_store [''job1'', ''job2'', ''job3'', ''job4'']
          (sjc_JobChain (ToSuspended example_store example_ref))
          (sjc_SequenceTries (ToSuspended example_store example_ref))
          (sjc_TotalJobTries (ToSuspended example_store example_ref))
          (sjc_LatestRunJobTries (ToSuspended example_store example_ref))) = example_ref \<and>
   fst (NewChain example_store [''job1'', ''job2'', ''job3'', ''job4'']
          (sjc_JobChain (ToSuspended example_store example_ref))
          (sjc_SequenceTries (ToSuspended example_store example_ref))
          (sjc_TotalJobTries (ToSuspended example_store example_ref))
          (sjc_LatestRunJobTries (ToSuspended example_store example_ref))) = example_store"
proof -
  let ?s = "ToSuspended example_store example_ref"
  let ?n = "NewChain example_store [''job1'', ''job2'', ''job3'', ''job4'']
          (sjc_JobChain ?s) (sjc_SequenceTries ?s) (sjc_TotalJobTries ?s) (sjc_LatestRunJobTries ?s)"
  have p: "?n = (fst ?n, snd ?n)" by simp
  have d: "\<forall>k job. jc_Jobs (jobChain (chain_of example_store example_ref)) k = Some job
      \<longrightarrow> job_Data job \<noteq> None"
    by (auto simp: chain_of_def example_store_def chain_S2_def scenario_chain_def init_job_def
        split: if_splits)
  show ?thesis
    using NewChain_ToSuspended [OF refl p refl refl refl] d by blast
qed


end
